theory Spec2Isabelle
  imports Main "HOL-Library.List_Lexorder" "HOL-Library.Multiset" "HOL-Library.AList"
begin

section \<open>JavaScript strings\<close>

text \<open>
  A JavaScript string is a sequence of UTF-16 code units. A code unit is modelled as a
  natural number (nothing below depends on the bound \<open>2^16\<close>), a string as the list of its
  code units. \<open>js\<close> turns an ASCII literal of the theory into such a string.
  The order on strings that \<open>Array.prototype.sort\<close> uses without a comparator is the
  lexicographic order on code units, which is the order of \<open>HOL-Library.List_Lexorder\<close>.
\<close>

type_synonym cu = nat
type_synonym jsstring = "cu list"

definition js :: "string \<Rightarrow> jsstring" where
  "js s = map of_char s"

text \<open>ECMAScript LineTerminator: LF, CR, U+2028, U+2029.\<close>

definition is_line_terminator :: "cu \<Rightarrow> bool" where
  "is_line_terminator c = (c = 10 \<or> c = 13 \<or> c = 8232 \<or> c = 8233)"

text \<open>ECMAScript WhiteSpace: TAB, VT, FF, SP, NBSP, ZWNBSP and the category Zs.\<close>

definition is_white_space :: "cu \<Rightarrow> bool" where
  "is_white_space c =
     (c = 9 \<or> c = 11 \<or> c = 12 \<or> c = 32 \<or> c = 160 \<or> c = 5760 \<or>
      (8192 \<le> c \<and> c \<le> 8202) \<or> c = 8239 \<or> c = 8287 \<or> c = 12288 \<or> c = 65279)"

text \<open>What \<open>String.prototype.trim\<close> strips and what the class \<open>\s\<close> matches.\<close>

definition is_space :: "cu \<Rightarrow> bool" where
  "is_space c = (is_white_space c \<or> is_line_terminator c)"

text \<open>The class \<open>\d\<close>: the ten ASCII digits.\<close>

definition is_digit :: "cu \<Rightarrow> bool" where
  "is_digit c = (48 \<le> c \<and> c \<le> 57)"

definition trim :: "jsstring \<Rightarrow> jsstring" where
  "trim s = rev (dropWhile is_space (rev (dropWhile is_space s)))"

text \<open>
  \<open>s.split(sep)\<close> for a separator of one code unit: the result is never empty
  (\<open>"".split(sep)\<close> is \<open>[""]\<close>).
\<close>

fun split_on :: "cu \<Rightarrow> jsstring \<Rightarrow> jsstring list" where
  "split_on sep [] = [[]]"
| "split_on sep (x # xs) =
     (if x = sep then [] # split_on sep xs
      else (case split_on sep xs of
              [] \<Rightarrow> [[x]]
            | y # ys \<Rightarrow> (x # y) # ys))"

text \<open>\<open>a.join(sep)\<close> for a separator string.\<close>

fun join_with :: "jsstring \<Rightarrow> jsstring list \<Rightarrow> jsstring" where
  "join_with sep [] = []"
| "join_with sep [x] = x"
| "join_with sep (x # y # ys) = x @ sep @ join_with sep (y # ys)"

text \<open>\<open>a[i]\<close>: \<open>None\<close> is JavaScript's \<open>undefined\<close> of a read past the end.\<close>

fun at_index :: "'a list \<Rightarrow> nat \<Rightarrow> 'a option" where
  "at_index [] i = None"
| "at_index (x # xs) 0 = Some x"
| "at_index (x # xs) (Suc i) = at_index xs i"

definition LF :: cu where "LF = 10"
definition TAB :: cu where "TAB = 9"
definition SLASH :: cu where "SLASH = 47"

section \<open>Regular expressions\<close>

text \<open>
  The fragment of ECMAScript patterns the program uses: literal characters, the classes
  \<open>\s\<close> and \<open>\d\<close>, the assertions \<open>^\<close> and \<open>$\<close>, concatenation, alternation and the
  greedy star, under the flags \<open>i\<close> and \<open>m\<close>. \<open>x?\<close> is \<open>Opt x\<close> and \<open>x+\<close> is \<open>Plus x\<close>.
\<close>

datatype rx =
    Lit cu
  | Cls "cu \<Rightarrow> bool"
  | Bol
  | Eol
  | Eps
  | Cat rx rx
  | Alt rx rx
  | Star rx

definition Opt :: "rx \<Rightarrow> rx" where
  "Opt r = Alt r Eps"

definition Plus :: "rx \<Rightarrow> rx" where
  "Plus r = Cat r (Star r)"

fun Lits :: "jsstring \<Rightarrow> rx" where
  "Lits [] = Eps"
| "Lits (c # cs) = Cat (Lit c) (Lits cs)"

record rx_flags =
  ignoreCase :: bool
  multiline :: bool

text \<open>
  Canonicalize of the ECMAScript specification (without the \<open>u\<close> flag), restricted to
  what decides a comparison with an ASCII pattern character: \<open>a\<close>..\<open>z\<close> go to
  \<open>A\<close>..\<open>Z\<close>; a code unit from 128 on never canonicalizes to one below 128, so against
  an ASCII letter it behaves as if left unchanged. Every literal of the patterns below
  is ASCII. The classes \<open>\s\<close> and \<open>\d\<close> hold no cased character, so the flag \<open>i\<close>
  leaves them as they are.
\<close>

definition canonicalize :: "cu \<Rightarrow> cu" where
  "canonicalize c = (if 97 \<le> c \<and> c \<le> 122 then c - 32 else c)"

definition lit_matches :: "rx_flags \<Rightarrow> cu \<Rightarrow> cu \<Rightarrow> bool" where
  "lit_matches f c x =
     (if ignoreCase f then canonicalize x = canonicalize c else x = c)"

text \<open>
  A matcher state is the code unit before the current position (\<open>None\<close> at the start
  of the input) and the input still to read. \<open>rx_run f r st\<close> lists the states in which a
  match of \<open>r\<close> started in \<open>st\<close> can end, in the order a backtracking matcher tries them.
  An iteration of a star that consumes nothing is rejected, as in ECMAScript.
\<close>

type_synonym rx_state = "cu option \<times> jsstring"

function rx_run :: "rx_flags \<Rightarrow> rx \<Rightarrow> rx_state \<Rightarrow> rx_state list" where
  "rx_run f (Lit c) st =
     (case snd st of
        [] \<Rightarrow> []
      | x # xs \<Rightarrow> if lit_matches f c x then [(Some x, xs)] else [])"
| "rx_run f (Cls P) st =
     (case snd st of
        [] \<Rightarrow> []
      | x # xs \<Rightarrow> if P x then [(Some x, xs)] else [])"
| "rx_run f Bol st =
     (case fst st of
        None \<Rightarrow> [st]
      | Some c \<Rightarrow> if multiline f \<and> is_line_terminator c then [st] else [])"
| "rx_run f Eol st =
     (case snd st of
        [] \<Rightarrow> [st]
      | x # xs \<Rightarrow> if multiline f \<and> is_line_terminator x then [st] else [])"
| "rx_run f Eps st = [st]"
| "rx_run f (Cat a b) st = concat (map (rx_run f b) (rx_run f a st))"
| "rx_run f (Alt a b) st = rx_run f a st @ rx_run f b st"
| "rx_run f (Star a) st =
     concat (map (rx_run f (Star a))
               (filter (\<lambda>st'. length (snd st') < length (snd st)) (rx_run f a st)))
     @ [st]"
  by pat_completeness auto
termination
  by (relation "measures [\<lambda>(f, r, st). size r, \<lambda>(f, r, st). length (snd st)]") auto

declare rx_run.simps [simp del]

text \<open>
  \<open>RegExp.prototype.test\<close> of a pattern without the \<open>g\<close> and \<open>y\<close> flags: the pattern is
  tried at every position of the input, from the left.
\<close>

fun rx_scan :: "rx_flags \<Rightarrow> rx \<Rightarrow> cu option \<Rightarrow> jsstring \<Rightarrow> bool" where
  "rx_scan f r p [] = (rx_run f r (p, []) \<noteq> [])"
| "rx_scan f r p (x # xs) = (rx_run f r (p, x # xs) \<noteq> [] \<or> rx_scan f r (Some x) xs)"

definition rx_test :: "rx_flags \<Rightarrow> rx \<Rightarrow> jsstring \<Rightarrow> bool" where
  "rx_test f r s = rx_scan f r None s"

section \<open>Classifier\<close>

text \<open>
  Lines 98 and 99 of \<open>main.js\<close>:
  \<^verbatim>\<open>isPR = (/^\s*(Merged\s+)?PR\s+\d+:/mi).test(subject)\<close> and
  \<^verbatim>\<open>isMerge = !isPR && (/Merge/mi).test(subject)\<close>.
  \<open>test_isPR\<close> and \<open>test_isMerge\<close> are the two right-hand sides as functions of
  the subject; \<open>rx_PR\<close> is the first pattern, \<open>rx_Merge\<close> the second.
\<close>

definition COLON :: cu where "COLON = 58"
definition DOT :: cu where "DOT = 46"
definition HYPHEN :: cu where "HYPHEN = 45"

definition flags_mi :: rx_flags where
  "flags_mi = \<lparr>ignoreCase = True, multiline = True\<rparr>"

definition flags_none :: rx_flags where
  "flags_none = \<lparr>ignoreCase = False, multiline = False\<rparr>"

definition rx_PR_body :: rx where
  "rx_PR_body =
     Cat (Star (Cls is_space))
       (Cat (Opt (Cat (Lits (js ''Merged'')) (Plus (Cls is_space))))
         (Cat (Lits (js ''PR''))
           (Cat (Plus (Cls is_space))
             (Cat (Plus (Cls is_digit)) (Lit COLON)))))"

definition rx_PR :: rx where
  "rx_PR = Cat Bol rx_PR_body"

definition rx_Merge :: rx where
  "rx_Merge = Lits (js ''Merge'')"

definition test_isPR :: "jsstring \<Rightarrow> bool" where
  "test_isPR subject = rx_test flags_mi rx_PR subject"

definition test_isMerge :: "jsstring \<Rightarrow> bool" where
  "test_isMerge subject = (\<not> test_isPR subject \<and> rx_test flags_mi rx_Merge subject)"

section \<open>Command Runner\<close>

text \<open>
  A thrown JavaScript value, by the text \<open>console.log\<close> prints for it.
\<close>

datatype error = Error jsstring

text \<open>
  What the program cannot compute itself:
  \<^item> \<open>execSync e cmd cwd\<close>: the standard output of the shell command \<open>cmd\<close> run in
    \<open>cwd\<close>, or the error \<open>child_process.execSync\<close> throws (a non-zero exit, or more
    output than \<open>maxBuffer\<close>). A command's result is taken to be a function of the
    command: the run issues a command twice only when the lister returns a branch name
    twice, and the repository is taken not to change in between;
  \<^item> \<open>mongo_connect e uri db\<close>: the error of \<open>MongoClient.connect(uri)\<close> or of opening
    the collection \<open>commits\<close> of the database \<open>db\<close>, if any;
  \<^item> \<open>updateOne_error e doc\<close>: the error with which \<open>collection.updateOne\<close> rejects
    the write of \<open>doc\<close>, if any;
  \<^item> \<open>now_iso e\<close>: \<open>new Date().toISOString()\<close> at line 26.
\<close>

datatype jsnumber = NaN | Num int

datatype jsdate = Date jsstring

record person =
  email :: jsstring
  name :: jsstring
  date :: jsdate

record file_stat =
  path :: "jsstring option"
  insertions :: "jsnumber option"
  deletions :: "jsnumber option"

record total_stat =
  total_insertions :: jsnumber
  total_deletions :: jsnumber

text \<open>\<open>stats.file\<close> and \<open>stats.total\<close> (\<open>file\<close> is a reserved word of the theory language).\<close>

record stats =
  stats_file :: "file_stat list"
  stats_total :: total_stat

record commit =
  repo :: jsstring
  remote :: jsstring
  hash :: jsstring
  branches :: "jsstring list"

record commit_details = commit +
  author :: person
  committer :: person
  subject :: jsstring
  body :: jsstring
  isPR :: bool
  isMerge :: bool
  doc_id :: jsstring
  stats :: stats

record env =
  execSync :: "jsstring \<Rightarrow> jsstring \<Rightarrow> error + jsstring"
  mongo_connect :: "jsstring \<Rightarrow> jsstring \<Rightarrow> error option"
  updateOne_error :: "commit_details \<Rightarrow> error option"
  now_iso :: jsstring

text \<open>
  Lines 7 to 9: \<^verbatim>\<open>execSync(`git ${args}`, { cwd, ... }).trim()\<close>. An error of
  \<open>execSync\<close> is not caught.
\<close>

definition git :: "env \<Rightarrow> jsstring \<Rightarrow> jsstring \<Rightarrow> error + jsstring" where
  "git e args cwd =
     (case execSync e (js ''git '' @ args) cwd of
        Inl err \<Rightarrow> Inl err
      | Inr out \<Rightarrow> Inr (trim out))"

text \<open>Sequencing of calls that may throw: the first error ends the sequence.\<close>

definition bindE :: "error + 'a \<Rightarrow> ('a \<Rightarrow> error + 'b) \<Rightarrow> error + 'b" where
  "bindE m k = (case m of Inl err \<Rightarrow> Inl err | Inr x \<Rightarrow> k x)"

section \<open>Branch Lister\<close>

text \<open>
  Lines 43 to 50, as a function of the remote name and of what
  \<^verbatim>\<open>git branch -r --format='%(refname)'\<close> returned. \<open>l.split('/')[2] == remoteName\<close>
  compares a string or \<open>undefined\<close> with a string.
\<close>

definition listBranches :: "jsstring \<Rightarrow> jsstring \<Rightarrow> jsstring list" where
  "listBranches remoteName out =
     sort
       (filter (\<lambda>l. l \<noteq> js ''HEAD'')
         (map (\<lambda>l. join_with [SLASH] (drop 3 (split_on SLASH l)))
           (filter (\<lambda>l. at_index (split_on SLASH l) 2 = Some remoteName)
             (filter (\<lambda>l. length (split_on SLASH l) \<ge> 4)
               (map trim (split_on LF out))))))"

section \<open>History Walker\<close>

text \<open>
  The \<open>Map\<close> of line 55 is an association list in insertion order: \<open>map_of\<close> is
  \<open>get\<close>, a key is present when \<open>map_of\<close> is not \<open>None\<close>, and \<open>AList.update\<close> is
  \<open>set\<close> (a new key goes to the end, a known key keeps its place).
  \<open>commits.get(commitHash).branches.push(branch)\<close> changes the record the map holds, so
  the model stores the changed record under the same key.
\<close>

type_synonym commits = "(jsstring \<times> commit) list"

text \<open>Lines 58 to 61: the hashes \<open>rev-list\<close> prints for a branch.\<close>

definition rev_list :: "env \<Rightarrow> jsstring \<Rightarrow> jsstring \<Rightarrow> jsstring \<Rightarrow> error + jsstring list" where
  "rev_list e repoPath remoteName branch =
     (case git e (js ''rev-list --full-history '' @ remoteName @ [SLASH] @ branch) repoPath of
        Inl err \<Rightarrow> Inl err
      | Inr out \<Rightarrow> Inr (filter (\<lambda>l. length l > 0) (map trim (split_on LF out))))"

text \<open>Lines 62 to 74: the callback of \<open>forEach\<close>.\<close>

definition visit :: "jsstring \<Rightarrow> jsstring \<Rightarrow> jsstring \<Rightarrow> commits \<Rightarrow> jsstring \<Rightarrow> commits" where
  "visit repoName remoteName branch commits commitHash =
     (case map_of commits commitHash of
        Some c \<Rightarrow> AList.update commitHash (c\<lparr>branches := branches c @ [branch]\<rparr>) commits
      | None \<Rightarrow>
          AList.update commitHash
            \<lparr>repo = repoName, remote = remoteName, hash = commitHash, branches = [branch]\<rparr>
            commits)"

text \<open>Lines 57 to 75: the loop over the branches.\<close>

fun walk ::
  "env \<Rightarrow> jsstring \<Rightarrow> jsstring \<Rightarrow> jsstring \<Rightarrow> commits \<Rightarrow> jsstring list \<Rightarrow> error + commits" where
  "walk e repoPath repoName remoteName commits [] = Inr commits"
| "walk e repoPath repoName remoteName commits (branch # rest) =
     (case rev_list e repoPath remoteName branch of
        Inl err \<Rightarrow> Inl err
      | Inr hashes \<Rightarrow>
          walk e repoPath repoName remoteName
            (foldl (visit repoName remoteName branch) commits hashes) rest)"

section \<open>Metadata Fetcher\<close>

definition QUOTE :: cu where "QUOTE = 39"
definition SPACE :: cu where "SPACE = 32"

text \<open>
  The command of lines 85 to 95, \<^verbatim>\<open>git(`show -s --format='<fmt>' ${commitHash}`, repoPath)\<close>,
  for the placeholder \<open>fmt\<close>.
\<close>

definition show_field :: "env \<Rightarrow> jsstring \<Rightarrow> string \<Rightarrow> jsstring \<Rightarrow> error + jsstring" where
  "show_field e repoPath fmt commitHash =
     git e (js ''show -s --format='' @ [QUOTE] @ js fmt @ [QUOTE] @ [SPACE] @ commitHash) repoPath"

text \<open>
  \<open>/^\d+$/\<close>, without flags. \<open>RegExp.prototype.test\<close> turns its argument into a string
  first: \<open>undefined\<close> (a missing field) becomes the text \<open>undefined\<close>.
\<close>

definition rx_digits :: rx where
  "rx_digits = Cat Bol (Cat (Plus (Cls is_digit)) Eol)"

fun to_string :: "jsstring option \<Rightarrow> jsstring" where
  "to_string None = js ''undefined''"
| "to_string (Some s) = s"

text \<open>
  \<open>parseInt(string)\<close> without a radix: leading white space, a sign, the prefix \<open>0x\<close> or
  \<open>0X\<close> (radix 16, otherwise 10), then the longest run of digits of the radix; \<open>NaN\<close>
  when that run is empty. Numbers are modelled as integers: a JavaScript number holds
  every integer below \<open>2^53\<close> exactly, and the counts of a diff are far below that.
\<close>

definition digit_val :: "cu \<Rightarrow> nat" where
  "digit_val c =
     (if 48 \<le> c \<and> c \<le> 57 then c - 48
      else if 97 \<le> c \<and> c \<le> 122 then c - 87
      else if 65 \<le> c \<and> c \<le> 90 then c - 55
      else 36)"

definition parseInt :: "jsstring \<Rightarrow> jsnumber" where
  "parseInt s =
     (let t = dropWhile is_space s;
          neg = (case t of [] \<Rightarrow> False | c # cs \<Rightarrow> c = 45);
          u = (case t of [] \<Rightarrow> [] | c # cs \<Rightarrow> if c = 45 \<or> c = 43 then cs else t);
          hex = (case u of a # b # cs \<Rightarrow> a = 48 \<and> (b = 120 \<or> b = 88) | _ \<Rightarrow> False);
          radix = (if hex then 16 else 10);
          v = (if hex then drop 2 u else u);
          ds = takeWhile (\<lambda>c. digit_val c < radix) v
      in if ds = [] then NaN
         else Num ((if neg then - 1 else 1) *
                   int (foldl (\<lambda>a c. a * radix + digit_val c) 0 ds)))"

text \<open>Lines 111 to 115: the record of one line, from its fields.\<close>

definition file_stat_of :: "jsstring list \<Rightarrow> file_stat" where
  "file_stat_of l =
     \<lparr>path = at_index l 2,
      insertions =
        (if rx_test flags_none rx_digits (to_string (at_index l 0))
         then Some (parseInt (to_string (at_index l 0))) else None),
      deletions =
        (if rx_test flags_none rx_digits (to_string (at_index l 1))
         then Some (parseInt (to_string (at_index l 1))) else None)\<rparr>"

text \<open>Lines 106 to 115, as a function of what \<open>git show --numstat\<close> returned.\<close>

definition parse_numstat :: "jsstring \<Rightarrow> file_stat list" where
  "parse_numstat out =
     map file_stat_of
       (map (\<lambda>l. map trim (split_on TAB l))
         (filter (\<lambda>l. length l > 0)
           (map trim (split_on LF out))))"

text \<open>
  \<open>x || 0\<close> for a count \<open>x\<close>: \<open>null\<close>, \<open>NaN\<close> and \<open>0\<close> are falsy. \<open>i + x\<close> on numbers.
\<close>

fun or_zero :: "jsnumber option \<Rightarrow> jsnumber" where
  "or_zero None = Num 0"
| "or_zero (Some NaN) = Num 0"
| "or_zero (Some (Num n)) = (if n = 0 then Num 0 else Num n)"

fun plus_number :: "jsnumber \<Rightarrow> jsnumber \<Rightarrow> jsnumber" where
  "plus_number (Num a) (Num b) = Num (a + b)"
| "plus_number a b = NaN"

text \<open>Lines 117 to 120.\<close>

definition numstat_total :: "file_stat list \<Rightarrow> total_stat" where
  "numstat_total fs =
     \<lparr>total_insertions = foldl (\<lambda>i e. plus_number i (or_zero (insertions e))) (Num 0) fs,
      total_deletions = foldl (\<lambda>i e. plus_number i (or_zero (deletions e))) (Num 0) fs\<rparr>"

text \<open>
  Lines 84 to 120: the document of one commit, from the record the walk made. The
  calls are in the order of the source; the first that throws ends the function.
\<close>

definition fetch_details :: "env \<Rightarrow> jsstring \<Rightarrow> jsstring \<Rightarrow> commit \<Rightarrow> error + commit_details" where
  "fetch_details e repoPath commitHash c =
     bindE (show_field e repoPath ''%ae'' commitHash) (\<lambda>ae.
     bindE (show_field e repoPath ''%an'' commitHash) (\<lambda>an.
     bindE (show_field e repoPath ''%ai'' commitHash) (\<lambda>ai.
     bindE (show_field e repoPath ''%ce'' commitHash) (\<lambda>ce.
     bindE (show_field e repoPath ''%cn'' commitHash) (\<lambda>cn.
     bindE (show_field e repoPath ''%ci'' commitHash) (\<lambda>ci.
     bindE (show_field e repoPath ''%s'' commitHash) (\<lambda>s.
     bindE (show_field e repoPath ''%b'' commitHash) (\<lambda>b.
     bindE (git e (js ''show --format='' @ [QUOTE, QUOTE] @ js '' --numstat '' @ commitHash) repoPath)
       (\<lambda>numstat.
          Inr \<lparr>repo = repo c, remote = remote c, hash = hash c, branches = branches c,
               author = \<lparr>email = ae, name = an, date = Date ai\<rparr>,
               committer = \<lparr>email = ce, name = cn, date = Date ci\<rparr>,
               subject = s,
               body = b,
               isPR = test_isPR s,
               isMerge = test_isMerge s,
               doc_id = repo c @ [HYPHEN] @ remote c @ [HYPHEN] @ hash c,
               stats = \<lparr>stats_file = parse_numstat numstat,
                        stats_total = numstat_total (parse_numstat numstat)\<rparr>\<rparr>)))))))))"

section \<open>Store Writer and the run\<close>

text \<open>
  What a run changes: the lines \<open>console.log\<close> printed, the collection \<open>commits\<close> by
  \<open>_id\<close>, the progress bar (ticks done and total, once it is made) and whether
  \<open>client.close()\<close> was called.
\<close>

datatype printed = Text jsstring | Thrown error

record state =
  console :: "printed list"
  stored :: "jsstring \<rightharpoonup> commit_details"
  progress :: "(nat \<times> nat) option"
  client_closed :: bool

definition console_log :: "printed \<Rightarrow> state \<Rightarrow> state" where
  "console_log x st = st\<lparr>console := console st @ [x]\<rparr>"

text \<open>
  Lines 123 to 131: an upsert with \<open>$set\<close> of every field of the document. All
  documents have the same fields, so the stored document is the new one.
\<close>

definition updateOne :: "env \<Rightarrow> commit_details \<Rightarrow> state \<Rightarrow> (error + unit) \<times> state" where
  "updateOne e d st =
     (case updateOne_error e d of
        Some err \<Rightarrow> (Inl err, st)
      | None \<Rightarrow> (Inr (), st\<lparr>stored := (stored st)(doc_id d \<mapsto> d)\<rparr>))"

definition bar_tick :: "state \<Rightarrow> state" where
  "bar_tick st = st\<lparr>progress := map_option (\<lambda>(n, t). (n + 1, t)) (progress st)\<rparr>"

text \<open>Lines 82 to 134: the loop over the map, in insertion order.\<close>

fun store_commits :: "env \<Rightarrow> jsstring \<Rightarrow> commits \<Rightarrow> state \<Rightarrow> (error + unit) \<times> state" where
  "store_commits e repoPath [] st = (Inr (), st)"
| "store_commits e repoPath ((commitHash, commitDetails) # rest) st =
     (case fetch_details e repoPath commitHash commitDetails of
        Inl err \<Rightarrow> (Inl err, st)
      | Inr d \<Rightarrow>
          (case updateOne e d st of
             (Inl err, st') \<Rightarrow> (Inl err, st')
           | (Inr u, st') \<Rightarrow> store_commits e repoPath rest (bar_tick st')))"

text \<open>Decimal digits of a number inside a template literal.\<close>

fun show_nat :: "nat \<Rightarrow> jsstring" where
  "show_nat n = (if n < 10 then [48 + n] else show_nat (n div 10) @ [48 + n mod 10])"

declare show_nat.simps [simp del]

text \<open>
  Lines 13 to 27: \<open>if (!x) { x = d }\<close> for a parameter that is \<open>null\<close> (the option was
  not given) or a string; the empty string is the only falsy string.
\<close>

fun or_default :: "jsstring option \<Rightarrow> jsstring \<Rightarrow> jsstring" where
  "or_default None d = d"
| "or_default (Some s) d = (if s = [] then d else s)"

text \<open>Line 26: \<^verbatim>\<open>`gitalyze-${new Date().toISOString().replace(/[\-:\.]/g, '')}`\<close>.\<close>

definition default_db :: "env \<Rightarrow> jsstring" where
  "default_db e =
     js ''gitalyze-'' @ filter (\<lambda>c. c \<noteq> HYPHEN \<and> c \<noteq> COLON \<and> c \<noteq> DOT) (now_iso e)"

text \<open>Lines 11 to 139. The result is \<open>Inl\<close> when the promise of \<open>main\<close> rejects.\<close>

definition main ::
  "env \<Rightarrow> jsstring option \<Rightarrow> jsstring option \<Rightarrow> jsstring option \<Rightarrow> jsstring option \<Rightarrow>
   state \<Rightarrow> (error + unit) \<times> state" where
  "main e repoPath0 remoteName0 mongoUri0 mongoDb0 st =
     (let repoPath = or_default repoPath0 (js ''.'');
          remoteName = or_default remoteName0 (js ''origin'');
          mongoUri = or_default mongoUri0 (js ''mongodb://localhost:27017'');
          mongoDb = or_default mongoDb0 (default_db e)
      in case mongo_connect e mongoUri mongoDb of
           Some err \<Rightarrow> (Inl err, st)
         | None \<Rightarrow>
      (case git e (js ''config --get remote.'' @ remoteName @ js ''.url'') repoPath of
           Inl err \<Rightarrow> (Inl err, st)
         | Inr repoUrl \<Rightarrow>
      (let repoName = last (split_on SLASH repoUrl);
           st1 = console_log (Text (js ''Repo: '' @ repoName)) st
       in case git e (js ''fetch --all --prune'') repoPath of
           Inl err \<Rightarrow> (Inl err, st1)
         | Inr fetched \<Rightarrow>
      (case git e (js ''branch -r --format='' @ [QUOTE] @ js ''%(refname)'' @ [QUOTE]) repoPath of
           Inl err \<Rightarrow> (Inl err, st1)
         | Inr out \<Rightarrow>
      (let branches = listBranches remoteName out;
           st2 = console_log
                   (Text (show_nat (length branches) @ js '' branches:'' @ [LF] @ js ''- '' @
                          join_with (LF # js ''- '') branches)) st1
       in case walk e repoPath repoName remoteName [] branches of
           Inl err \<Rightarrow> (Inl err, st2)
         | Inr commits \<Rightarrow>
      (let st3 = console_log
                   (Text (show_nat (length commits) @ js '' commits:'' @ [LF] @ js ''- '' @
                          join_with (LF # js ''- '') (sort (map fst commits)))) st2;
           st4 = st3\<lparr>progress := Some (0, length commits)\<rparr>
       in case store_commits e repoPath commits st4 of
           (Inl err, st5) \<Rightarrow> (Inl err, st5)
         | (Inr u, st5) \<Rightarrow>
             (Inr (), console_log (Text (js ''Done!'')) (st5\<lparr>client_closed := True\<rparr>))))))))"

text \<open>
  Lines 174 to 179, after \<open>parseArgs\<close> returned: the exit code and the final state.
\<close>

definition run ::
  "env \<Rightarrow> jsstring option \<Rightarrow> jsstring option \<Rightarrow> jsstring option \<Rightarrow> jsstring option \<Rightarrow>
   state \<Rightarrow> nat \<times> state" where
  "run e repo_arg remote_arg mongo_arg db_arg st =
     (case main e repo_arg remote_arg mongo_arg db_arg st of
        (Inr u, st') \<Rightarrow> (0, st')
      | (Inl err, st') \<Rightarrow> (1, console_log (Thrown err) st'))"

section \<open>The meaning of patterns, and the words of the specification\<close>

text \<open>
  The definitions of this section are not part of the program. \<open>lang f r\<close> is the set
  of strings a pattern without assertions matches, \<open>star\<close> its iteration, and
  \<open>reach f r st\<close> the states a match can end in; the matcher \<open>rx_run\<close> is proved to
  compute exactly those. The remaining definitions say in terms of lists what the
  specification says in words.
\<close>

inductive_set star :: "jsstring set \<Rightarrow> jsstring set" for L :: "jsstring set" where
  star_nil: "[] \<in> star L"
| star_app: "u \<in> L \<Longrightarrow> u \<noteq> [] \<Longrightarrow> v \<in> star L \<Longrightarrow> u @ v \<in> star L"

fun anchor_free :: "rx \<Rightarrow> bool" where
  "anchor_free Bol = False"
| "anchor_free Eol = False"
| "anchor_free (Cat a b) = (anchor_free a \<and> anchor_free b)"
| "anchor_free (Alt a b) = (anchor_free a \<and> anchor_free b)"
| "anchor_free (Star a) = anchor_free a"
| "anchor_free r = True"

fun lang :: "rx_flags \<Rightarrow> rx \<Rightarrow> jsstring set" where
  "lang f (Lit c) = {[x] | x. lit_matches f c x}"
| "lang f (Cls P) = {[x] | x. P x}"
| "lang f Bol = {}"
| "lang f Eol = {}"
| "lang f Eps = {[]}"
| "lang f (Cat a b) = {u @ v | u v. u \<in> lang f a \<and> v \<in> lang f b}"
| "lang f (Alt a b) = lang f a \<union> lang f b"
| "lang f (Star a) = star (lang f a)"

definition prev_of :: "cu option \<Rightarrow> jsstring \<Rightarrow> cu option" where
  "prev_of p w = (if w = [] then p else Some (last w))"

definition reach :: "rx_flags \<Rightarrow> rx \<Rightarrow> rx_state \<Rightarrow> rx_state set" where
  "reach f r st = {(prev_of (fst st) w, t) | w t. snd st = w @ t \<and> w \<in> lang f r}"

text \<open>Equal up to the case of ASCII letters.\<close>

definition ci_eq :: "jsstring \<Rightarrow> jsstring \<Rightarrow> bool" where
  "ci_eq a b = (map canonicalize a = map canonicalize b)"

text \<open>
  The specification's "begins (after optional leading whitespace) with an optional
  case-insensitive Merged token followed by PR <number>:": white space, then optionally
  \<open>Merged\<close> and white space, then \<open>PR\<close>, white space, digits and a colon, read from the
  first code unit of the string on.
\<close>

definition begins_with_PR :: "jsstring \<Rightarrow> bool" where
  "begins_with_PR t =
     (\<exists>sp mg pr sp2 num rest.
        t = sp @ mg @ pr @ sp2 @ num @ COLON # rest \<and>
        list_all is_space sp \<and>
        (mg = [] \<or>
         (\<exists>m sp1. mg = m @ sp1 \<and> ci_eq m (js ''Merged'') \<and> sp1 \<noteq> [] \<and> list_all is_space sp1)) \<and>
        ci_eq pr (js ''PR'') \<and>
        sp2 \<noteq> [] \<and> list_all is_space sp2 \<and>
        num \<noteq> [] \<and> list_all is_digit num)"

text \<open>The string \<open>s\<close> contains \<open>w\<close> up to case.\<close>

definition contains_ci :: "jsstring \<Rightarrow> jsstring \<Rightarrow> bool" where
  "contains_ci w s = (\<exists>u x v. s = u @ x @ v \<and> ci_eq x w)"

text \<open>
  For the walk: the hashes \<open>rev-list\<close> lists for a branch (none when the call throws),
  the branch names the walk appends for the hash \<open>k\<close>, and a record after a list of names
  has been appended.
\<close>

definition hashes_of :: "env \<Rightarrow> jsstring \<Rightarrow> jsstring \<Rightarrow> jsstring \<Rightarrow> jsstring list" where
  "hashes_of e repoPath remoteName branch =
     (case rev_list e repoPath remoteName branch of Inl err \<Rightarrow> [] | Inr hs \<Rightarrow> hs)"

definition added :: "env \<Rightarrow> jsstring \<Rightarrow> jsstring \<Rightarrow> jsstring list \<Rightarrow> jsstring \<Rightarrow> jsstring list" where
  "added e repoPath remoteName bs k =
     concat (map (\<lambda>b. replicate (count_list (hashes_of e repoPath remoteName b) k) b) bs)"

definition with_branches :: "jsstring \<Rightarrow> jsstring \<Rightarrow> jsstring \<Rightarrow> jsstring list \<Rightarrow> commit option \<Rightarrow> commit option" where
  "with_branches repoName remoteName k xs ro =
     (case ro of
        Some c \<Rightarrow> Some (c\<lparr>branches := branches c @ xs\<rparr>)
      | None \<Rightarrow>
          if xs = [] then None
          else Some \<lparr>repo = repoName, remote = remoteName, hash = k, branches = xs\<rparr>)"

text \<open>
  A concrete environment for the examples: every command prints the two lines \<open>c1\<close> and
  \<open>c0\<close>, and no call fails. \<open>demo_refs\<close> is a branch listing; \<open>nbsp_refs\<close> lists two
  distinct remote branches, \<open>x<NBSP>\<close> and \<open>x\<close> (git allows U+00A0 in a ref name, and
  \<open>String.prototype.trim\<close> strips it).
\<close>

definition demo_env :: env where
  "demo_env =
     \<lparr>execSync = (\<lambda>cmd cwd. Inr (js ''c1'' @ [LF] @ js ''c0'' @ [LF])),
      mongo_connect = (\<lambda>uri db. None),
      updateOne_error = (\<lambda>d. None),
      now_iso = js ''2019-02-03T04:05:06.789Z''\<rparr>"

definition demo_refs :: jsstring where
  "demo_refs =
     js ''refs/remotes/origin/main'' @ [LF] @ js ''refs/remotes/origin/HEAD'' @ [LF] @
     js ''refs/remotes/origin/dev'' @ [LF] @ js ''refs/heads/main''"

definition nbsp_refs :: jsstring where
  "nbsp_refs = js ''refs/remotes/origin/x'' @ [160, LF] @ js ''refs/remotes/origin/x''"








text \<open>The state before a first run, and two records with the same hash for the examples.\<close>

definition init_state :: state where
  "init_state = \<lparr>console = [], stored = Map.empty, progress = None, client_closed = False\<rparr>"

definition commit_A :: commit where
  "commit_A = \<lparr>repo = js ''a-b'', remote = js ''c'', hash = js ''c1'', branches = [js ''main'']\<rparr>"

definition commit_B :: commit where
  "commit_B = \<lparr>repo = js ''a'', remote = js ''b-c'', hash = js ''c1'', branches = [js ''main'']\<rparr>"




section \<open>Properties\<close>

subsection \<open>Reading a list at a numeral\<close>

lemma at_index_Cons_numeral:
  "at_index (x # xs) (numeral n) = at_index xs (pred_numeral n)"
  by (simp add: numeral_eq_Suc)

subsection \<open>The matcher computes the meaning of a pattern\<close>

lemma prev_of_Nil: "prev_of p [] = p"
  by (simp add: prev_of_def)

lemma prev_of_append: "prev_of (prev_of p u) v = prev_of p (u @ v)"
  by (simp add: prev_of_def)

lemma reach_Cat:
  "reach f (Cat a b) st = (\<Union>st' \<in> reach f a st. reach f b st')"
proof (rule set_eqI, rule iffI)
  fix x assume "x \<in> reach f (Cat a b) st"
  then obtain u v t where x: "x = (prev_of (fst st) (u @ v), t)" and s: "snd st = (u @ v) @ t"
    and u: "u \<in> lang f a" and v: "v \<in> lang f b"
    by (auto simp: reach_def)
  have "(prev_of (fst st) u, v @ t) \<in> reach f a st"
    using s u by (auto simp: reach_def)
  moreover have "x \<in> reach f b (prev_of (fst st) u, v @ t)"
    using x v by (auto simp: reach_def prev_of_append)
  ultimately show "x \<in> (\<Union>st' \<in> reach f a st. reach f b st')" by blast
next
  fix x assume "x \<in> (\<Union>st' \<in> reach f a st. reach f b st')"
  then obtain u t' v t where s: "snd st = u @ t'" and u: "u \<in> lang f a"
    and t': "t' = v @ t" and v: "v \<in> lang f b"
    and x: "x = (prev_of (prev_of (fst st) u) v, t)"
    by (auto simp: reach_def)
  have "snd st = (u @ v) @ t" using s t' by simp
  moreover have "u @ v \<in> lang f (Cat a b)" using u v by auto
  ultimately show "x \<in> reach f (Cat a b) st"
    unfolding reach_def x prev_of_append by blast
qed

lemma star_unfold:
  "w \<in> star L \<longleftrightarrow> w = [] \<or> (\<exists>u v. w = u @ v \<and> u \<in> L \<and> u \<noteq> [] \<and> v \<in> star L)"
proof
  assume "w \<in> star L"
  then show "w = [] \<or> (\<exists>u v. w = u @ v \<and> u \<in> L \<and> u \<noteq> [] \<and> v \<in> star L)"
    by (cases rule: star.cases) blast+
next
  assume "w = [] \<or> (\<exists>u v. w = u @ v \<and> u \<in> L \<and> u \<noteq> [] \<and> v \<in> star L)"
  then show "w \<in> star L"
    using star_nil star_app by blast
qed

lemma reach_Star:
  "reach f (Star a) st =
     (\<Union>st' \<in> {x \<in> reach f a st. length (snd x) < length (snd st)}. reach f (Star a) st') \<union> {st}"
proof (rule set_eqI, rule iffI)
  fix x assume "x \<in> reach f (Star a) st"
  then obtain w t where x: "x = (prev_of (fst st) w, t)" and s: "snd st = w @ t"
    and w: "w \<in> star (lang f a)"
    by (auto simp: reach_def)
  from w show "x \<in> (\<Union>st' \<in> {x \<in> reach f a st. length (snd x) < length (snd st)}. reach f (Star a) st') \<union> {st}"
  proof (cases rule: star.cases)
    case star_nil
    then show ?thesis using x s by (cases st) (simp add: prev_of_Nil)
  next
    case (star_app u v)
    have "(prev_of (fst st) u, v @ t) \<in> reach f a st"
      using s star_app by (auto simp: reach_def)
    moreover have "length (v @ t) < length (snd st)"
      using s star_app by simp
    moreover have "x \<in> reach f (Star a) (prev_of (fst st) u, v @ t)"
      using x star_app by (auto simp: reach_def prev_of_append)
    ultimately show ?thesis by auto
  qed
next
  fix x assume "x \<in> (\<Union>st' \<in> {x \<in> reach f a st. length (snd x) < length (snd st)}. reach f (Star a) st') \<union> {st}"
  then consider "x = st" | u t' v t where "snd st = u @ t'" "u \<in> lang f a"
    "length t' < length (snd st)" "t' = v @ t" "v \<in> star (lang f a)"
    "x = (prev_of (prev_of (fst st) u) v, t)"
    by (auto simp: reach_def)
  then show "x \<in> reach f (Star a) st"
  proof cases
    case 1
    have "(prev_of (fst st) [], [] @ snd st) \<in> reach f (Star a) st"
      unfolding reach_def using star_nil[of "lang f a"] by force
    then show ?thesis using 1 by (simp add: prev_of_Nil)
  next
    case 2
    then have "u \<noteq> []" by auto
    then have "u @ v \<in> star (lang f a)" using 2 by (auto intro: star.star_app)
    moreover have "snd st = (u @ v) @ t" using 2 by simp
    ultimately have "(prev_of (fst st) (u @ v), t) \<in> reach f (Star a) st"
      unfolding reach_def lang.simps by blast
    then show ?thesis using 2(6) by (simp add: prev_of_append)
  qed
qed

lemma rx_run_reach:
  "anchor_free r \<Longrightarrow> set (rx_run f r st) = reach f r st"
proof (induction f r st rule: rx_run.induct)
  case (1 f c st)
  show ?case by (cases st) (auto simp: rx_run.simps reach_def prev_of_def split: list.splits)
next
  case (2 f P st)
  show ?case by (cases st) (auto simp: rx_run.simps reach_def prev_of_def split: list.splits)
next
  case (3 f st)
  then show ?case by simp
next
  case (4 f st)
  then show ?case by simp
next
  case (5 f st)
  show ?case by (cases st) (auto simp: rx_run.simps reach_def prev_of_Nil)
next
  case (6 f a b st)
  then show ?case by (simp add: rx_run.simps reach_Cat)
next
  case (7 f a b st)
  then show ?case by (auto simp: rx_run.simps reach_def)
next
  case (8 f a st)
  have a: "set (rx_run f a st) = reach f a st" using 8 by simp
  have b: "\<And>x. x \<in> reach f a st \<Longrightarrow> length (snd x) < length (snd st) \<Longrightarrow>
             set (rx_run f (Star a) x) = reach f (Star a) x"
    using 8 a by simp
  have "set (rx_run f (Star a) st) =
        (\<Union>st' \<in> {x \<in> reach f a st. length (snd x) < length (snd st)}. set (rx_run f (Star a) st')) \<union> {st}"
    using a by (subst rx_run.simps) (simp add: Un_commute)
  also have "\<dots> = (\<Union>st' \<in> {x \<in> reach f a st. length (snd x) < length (snd st)}. reach f (Star a) st') \<union> {st}"
    using b by (intro arg_cong2[where f="(\<union>)"] SUP_cong refl) simp_all
  finally show ?case by (simp only: reach_Star[symmetric])
qed

lemma rx_scan_iff:
  "rx_scan f r p s \<longleftrightarrow> (\<exists>u v. s = u @ v \<and> rx_run f r (prev_of p u, v) \<noteq> [])"
proof (induction s arbitrary: p)
  case Nil
  then show ?case by (simp add: prev_of_Nil)
next
  case (Cons x xs)
  show ?case
  proof
    assume "rx_scan f r p (x # xs)"
    then consider "rx_run f r (p, x # xs) \<noteq> []" | "rx_scan f r (Some x) xs" by auto
    then show "\<exists>u v. x # xs = u @ v \<and> rx_run f r (prev_of p u, v) \<noteq> []"
    proof cases
      case 1
      then have "x # xs = [] @ (x # xs) \<and> rx_run f r (prev_of p [], x # xs) \<noteq> []"
        by (simp add: prev_of_Nil)
      then show ?thesis by blast
    next
      case 2
      then obtain u v where "xs = u @ v" "rx_run f r (prev_of (Some x) u, v) \<noteq> []"
        using Cons.IH by blast
      then have "x # xs = (x # u) @ v \<and> rx_run f r (prev_of p (x # u), v) \<noteq> []"
        by (auto simp: prev_of_def split: if_splits)
      then show ?thesis by blast
    qed
  next
    assume "\<exists>u v. x # xs = u @ v \<and> rx_run f r (prev_of p u, v) \<noteq> []"
    then obtain u v where uv: "x # xs = u @ v" "rx_run f r (prev_of p u, v) \<noteq> []" by blast
    show "rx_scan f r p (x # xs)"
    proof (cases u)
      case Nil
      then have "v = x # xs" using uv by simp
      then show ?thesis using uv(2) Nil by (simp add: prev_of_Nil)
    next
      case u: (Cons y ys)
      then have "xs = ys @ v" "rx_run f r (prev_of (Some x) ys, v) \<noteq> []"
        using uv by (auto simp: prev_of_def split: if_splits)
      then have "rx_scan f r (Some x) xs" using Cons.IH by blast
      then show ?thesis by simp
    qed
  qed
qed

lemma star_Cls: "w \<in> star {[x] | x. P x} \<longleftrightarrow> list_all P w"
proof
  assume "w \<in> star {[x] | x. P x}"
  then show "list_all P w"
    by (induction rule: star.induct) auto
next
  assume "list_all P w"
  then show "w \<in> star {[x] | x. P x}"
  proof (induction w)
    case Nil
    show ?case by (rule star_nil)
  next
    case (Cons x w)
    then have "[x] \<in> {[x] | x. P x}" "w \<in> star {[x] | x. P x}" by auto
    then have "[x] @ w \<in> star {[x] | x. P x}" by (intro star_app) auto
    then show ?case by simp
  qed
qed

lemma lang_Star_Cls: "lang f (Star (Cls P)) = {w. list_all P w}"
  by (auto simp: star_Cls)

lemma lang_Plus_Cls: "lang f (Plus (Cls P)) = {w. w \<noteq> [] \<and> list_all P w}"
proof (rule set_eqI)
  fix w
  show "w \<in> lang f (Plus (Cls P)) \<longleftrightarrow> w \<in> {w. w \<noteq> [] \<and> list_all P w}"
  proof (cases w)
    case Nil
    then show ?thesis by (simp add: Plus_def)
  next
    case (Cons x xs)
    have "P x \<and> list_all P xs \<Longrightarrow>
          \<exists>u v. x # xs = u @ v \<and> (\<exists>y. u = [y] \<and> P y) \<and> list_all P v"
    proof -
      assume "P x \<and> list_all P xs"
      then have "x # xs = [x] @ xs \<and> (\<exists>y. [x] = [y] \<and> P y) \<and> list_all P xs" by simp
      then show ?thesis by blast
    qed
    then show ?thesis using Cons by (auto simp: Plus_def star_Cls)
  qed
qed

lemma lang_Opt: "lang f (Opt r) = insert [] (lang f r)"
  by (auto simp: Opt_def)

lemma ex_single_append:
  "(\<exists>u v. x = u @ v \<and> (\<exists>y. u = [y] \<and> Q y) \<and> R v) \<longleftrightarrow> (\<exists>y v. x = y # v \<and> Q y \<and> R v)"
proof
  assume "\<exists>u v. x = u @ v \<and> (\<exists>y. u = [y] \<and> Q y) \<and> R v"
  then show "\<exists>y v. x = y # v \<and> Q y \<and> R v" by auto
next
  assume "\<exists>y v. x = y # v \<and> Q y \<and> R v"
  then obtain y v where "x = [y] @ v \<and> (\<exists>z. [y] = [z] \<and> Q z) \<and> R v" by auto
  then show "\<exists>u v. x = u @ v \<and> (\<exists>y. u = [y] \<and> Q y) \<and> R v" by blast
qed

lemma in_lang_Lits: "ignoreCase f \<Longrightarrow> x \<in> lang f (Lits w) \<longleftrightarrow> ci_eq x w"
proof (induction w arbitrary: x)
  case Nil
  then show ?case by (simp add: ci_eq_def)
next
  case (Cons c w)
  have "x \<in> lang f (Lits (c # w)) \<longleftrightarrow>
        (\<exists>y v. x = y # v \<and> lit_matches f c y \<and> v \<in> lang f (Lits w))"
    by (simp add: ex_single_append)
  also have "\<dots> \<longleftrightarrow> (\<exists>y v. x = y # v \<and> canonicalize y = canonicalize c \<and> ci_eq v w)"
    using Cons by (simp add: lit_matches_def)
  also have "\<dots> \<longleftrightarrow> ci_eq x (c # w)"
    by (cases x) (simp_all add: ci_eq_def)
  finally show ?case .
qed

lemma lang_Lits: "ignoreCase f \<Longrightarrow> lang f (Lits w) = {x. ci_eq x w}"
  using in_lang_Lits by blast

lemma anchor_free_Lits: "anchor_free (Lits w)"
  by (induction w) auto

lemma run_nonempty:
  "anchor_free r \<Longrightarrow> rx_run f r (p, s) \<noteq> [] \<longleftrightarrow> (\<exists>w t. s = w @ t \<and> w \<in> lang f r)"
proof -
  assume a: "anchor_free r"
  have "rx_run f r (p, s) \<noteq> [] \<longleftrightarrow> set (rx_run f r (p, s)) \<noteq> {}" by simp
  also have "\<dots> \<longleftrightarrow> reach f r (p, s) \<noteq> {}" using a by (simp only: rx_run_reach)
  also have "\<dots> \<longleftrightarrow> (\<exists>w t. s = w @ t \<and> w \<in> lang f r)" by (auto simp: reach_def)
  finally show ?thesis .
qed

lemma rx_test_free:
  "anchor_free r \<Longrightarrow> rx_test f r s \<longleftrightarrow> (\<exists>u w v. s = u @ w @ v \<and> w \<in> lang f r)"
  unfolding rx_test_def rx_scan_iff by (simp add: run_nonempty) blast

lemma run_Bol:
  "rx_run f (Cat Bol r) (p, s) =
     (if p = None \<or> (multiline f \<and> is_line_terminator (the p)) then rx_run f r (p, s) else [])"
  by (cases p) (auto simp: rx_run.simps)

lemma run_Bol_nonempty:
  assumes "anchor_free r"
  shows "rx_run f (Cat Bol r) (prev_of None u, v) \<noteq> [] \<longleftrightarrow>
         (u = [] \<or> (multiline f \<and> is_line_terminator (last u))) \<and>
         (\<exists>w t. v = w @ t \<and> w \<in> lang f r)"
proof (cases "u = []")
  case True
  then show ?thesis using assms by (simp add: run_Bol run_nonempty prev_of_Nil)
next
  case False
  then have p: "prev_of None u = Some (last u)" by (simp add: prev_of_def)
  show ?thesis
  proof (cases "multiline f \<and> is_line_terminator (last u)")
    case True
    then show ?thesis using assms by (simp add: p run_Bol run_nonempty)
  next
    case no: False
    then show ?thesis using False by (auto simp: p run_Bol)
  qed
qed

lemma rx_test_Bol:
  assumes "anchor_free r"
  shows "rx_test f (Cat Bol r) s \<longleftrightarrow>
     (\<exists>u w v. s = u @ w @ v \<and> (u = [] \<or> (multiline f \<and> is_line_terminator (last u))) \<and> w \<in> lang f r)"
  unfolding rx_test_def rx_scan_iff run_Bol_nonempty[OF assms] by blast



lemma lit_COLON: "lit_matches flags_mi COLON x \<longleftrightarrow> x = COLON"
  by (auto simp: lit_matches_def flags_mi_def canonicalize_def COLON_def)

lemma lang_Lit_COLON: "lang flags_mi (Lit COLON) = {[COLON]}"
  by (auto simp: lit_COLON)

lemma ic_mi: "ignoreCase flags_mi" "multiline flags_mi"
  by (simp_all add: flags_mi_def)

lemma anchor_free_PR_body: "anchor_free rx_PR_body"
  by (simp add: rx_PR_body_def Opt_def Plus_def anchor_free_Lits)

lemma lang_CatI: "u \<in> lang f a \<Longrightarrow> v \<in> lang f b \<Longrightarrow> u @ v \<in> lang f (Cat a b)"
  by auto

lemma lang_CatE:
  assumes "w \<in> lang f (Cat a b)"
  obtains u v where "w = u @ v" "u \<in> lang f a" "v \<in> lang f b"
  using assms by auto

lemma in_lang_Merged:
  "mg \<in> lang flags_mi (Opt (Cat (Lits (js ''Merged'')) (Plus (Cls is_space)))) \<longleftrightarrow>
     (mg = [] \<or>
      (\<exists>m sp1. mg = m @ sp1 \<and> ci_eq m (js ''Merged'') \<and> sp1 \<noteq> [] \<and> list_all is_space sp1))"
  by (simp add: lang_Opt lang_Plus_Cls lang_Lits[OF ic_mi(1)] del: lang.simps(8))

lemma in_lang_PR_body:
  "w \<in> lang flags_mi rx_PR_body \<longleftrightarrow>
     (\<exists>sp mg pr sp2 num.
        w = sp @ mg @ pr @ sp2 @ num @ [COLON] \<and>
        list_all is_space sp \<and>
        (mg = [] \<or>
         (\<exists>m sp1. mg = m @ sp1 \<and> ci_eq m (js ''Merged'') \<and> sp1 \<noteq> [] \<and> list_all is_space sp1)) \<and>
        ci_eq pr (js ''PR'') \<and>
        sp2 \<noteq> [] \<and> list_all is_space sp2 \<and>
        num \<noteq> [] \<and> list_all is_digit num)"
  (is "?L \<longleftrightarrow> ?R")
proof
  assume ?L
  then obtain sp w1 where 1: "w = sp @ w1" "sp \<in> lang flags_mi (Star (Cls is_space))"
    and m1: "w1 \<in> lang flags_mi (Cat (Opt (Cat (Lits (js ''Merged'')) (Plus (Cls is_space))))
         (Cat (Lits (js ''PR'')) (Cat (Plus (Cls is_space)) (Cat (Plus (Cls is_digit)) (Lit COLON)))))"
    unfolding rx_PR_body_def by (rule lang_CatE)
  from m1 obtain mg w2 where 2: "w1 = mg @ w2"
    "mg \<in> lang flags_mi (Opt (Cat (Lits (js ''Merged'')) (Plus (Cls is_space))))"
    and m2: "w2 \<in> lang flags_mi (Cat (Lits (js ''PR''))
           (Cat (Plus (Cls is_space)) (Cat (Plus (Cls is_digit)) (Lit COLON))))"
    by (rule lang_CatE)
  from m2 obtain pr w3 where 3: "w2 = pr @ w3" "pr \<in> lang flags_mi (Lits (js ''PR''))"
    and m3: "w3 \<in> lang flags_mi (Cat (Plus (Cls is_space)) (Cat (Plus (Cls is_digit)) (Lit COLON)))"
    by (rule lang_CatE)
  from m3 obtain sp2 w4 where 4: "w3 = sp2 @ w4" "sp2 \<in> lang flags_mi (Plus (Cls is_space))"
    and m4: "w4 \<in> lang flags_mi (Cat (Plus (Cls is_digit)) (Lit COLON))"
    by (rule lang_CatE)
  from m4 obtain num w5 where 5: "w4 = num @ w5" "num \<in> lang flags_mi (Plus (Cls is_digit))"
    and 6: "w5 \<in> lang flags_mi (Lit COLON)"
    by (rule lang_CatE)
  have "w5 = [COLON]" using 6 unfolding lang_Lit_COLON by simp
  then have "w = sp @ mg @ pr @ sp2 @ num @ [COLON]"
    using 1(1) 2(1) 3(1) 4(1) 5(1) by simp
  moreover have "list_all is_space sp" using 1(2) by (simp add: lang_Star_Cls del: lang.simps(8))
  moreover have "mg = [] \<or>
      (\<exists>m sp1. mg = m @ sp1 \<and> ci_eq m (js ''Merged'') \<and> sp1 \<noteq> [] \<and> list_all is_space sp1)"
    using 2(2) by (simp only: in_lang_Merged)
  moreover have "ci_eq pr (js ''PR'')" using 3(2) by (simp add: lang_Lits[OF ic_mi(1)])
  moreover have "sp2 \<noteq> [] \<and> list_all is_space sp2" using 4(2) by (simp add: lang_Plus_Cls)
  moreover have "num \<noteq> [] \<and> list_all is_digit num" using 5(2) by (simp add: lang_Plus_Cls)
  ultimately show ?R by blast
next
  assume ?R
  then obtain sp mg pr sp2 num where
    w: "w = sp @ mg @ pr @ sp2 @ num @ [COLON]" and
    c: "list_all is_space sp"
       "mg = [] \<or> (\<exists>m sp1. mg = m @ sp1 \<and> ci_eq m (js ''Merged'') \<and> sp1 \<noteq> [] \<and> list_all is_space sp1)"
       "ci_eq pr (js ''PR'')" "sp2 \<noteq> []" "list_all is_space sp2" "num \<noteq> []" "list_all is_digit num"
    by blast
  have "sp \<in> lang flags_mi (Star (Cls is_space))"
    using c(1) by (simp add: lang_Star_Cls del: lang.simps(8))
  moreover have "mg \<in> lang flags_mi (Opt (Cat (Lits (js ''Merged'')) (Plus (Cls is_space))))"
    using c(2) by (simp only: in_lang_Merged)
  moreover have "pr \<in> lang flags_mi (Lits (js ''PR''))"
    using c(3) by (simp add: lang_Lits[OF ic_mi(1)])
  moreover have "sp2 \<in> lang flags_mi (Plus (Cls is_space))"
    using c(4,5) by (simp add: lang_Plus_Cls)
  moreover have "num \<in> lang flags_mi (Plus (Cls is_digit))"
    using c(6,7) by (simp add: lang_Plus_Cls)
  moreover have "[COLON] \<in> lang flags_mi (Lit COLON)"
    unfolding lang_Lit_COLON by simp
  ultimately show ?L
    unfolding rx_PR_body_def w by (intro lang_CatI)
qed

lemma begins_with_PR_lang:
  "begins_with_PR t \<longleftrightarrow> (\<exists>w rest. t = w @ rest \<and> w \<in> lang flags_mi rx_PR_body)"
proof
  assume "begins_with_PR t"
  then obtain sp mg pr sp2 num rest where
    t0: "t = sp @ mg @ pr @ sp2 @ num @ COLON # rest" and
    c: "list_all is_space sp"
       "mg = [] \<or> (\<exists>m sp1. mg = m @ sp1 \<and> ci_eq m (js ''Merged'') \<and> sp1 \<noteq> [] \<and> list_all is_space sp1)"
       "ci_eq pr (js ''PR'')" "sp2 \<noteq> []" "list_all is_space sp2" "num \<noteq> []" "list_all is_digit num"
    unfolding begins_with_PR_def by blast
  have t: "t = (sp @ mg @ pr @ sp2 @ num @ [COLON]) @ rest" using t0 by simp
  have "sp @ mg @ pr @ sp2 @ num @ [COLON] \<in> lang flags_mi rx_PR_body"
    unfolding in_lang_PR_body using c by blast
  then show "\<exists>w rest. t = w @ rest \<and> w \<in> lang flags_mi rx_PR_body"
    using t by blast
next
  assume "\<exists>w rest. t = w @ rest \<and> w \<in> lang flags_mi rx_PR_body"
  then obtain w rest where t: "t = w @ rest" and w: "w \<in> lang flags_mi rx_PR_body" by blast
  from w obtain sp mg pr sp2 num where
    w': "w = sp @ mg @ pr @ sp2 @ num @ [COLON]" and
    c: "list_all is_space sp"
       "mg = [] \<or> (\<exists>m sp1. mg = m @ sp1 \<and> ci_eq m (js ''Merged'') \<and> sp1 \<noteq> [] \<and> list_all is_space sp1)"
       "ci_eq pr (js ''PR'')" "sp2 \<noteq> []" "list_all is_space sp2" "num \<noteq> []" "list_all is_digit num"
    unfolding in_lang_PR_body by blast
  have "t = sp @ mg @ pr @ sp2 @ num @ COLON # rest" using t w' by simp
  then show "begins_with_PR t"
    unfolding begins_with_PR_def using c by blast
qed

lemma test_isPR_iff:
  "test_isPR s \<longleftrightarrow>
     (\<exists>u v. s = u @ v \<and> (u = [] \<or> is_line_terminator (last u)) \<and> begins_with_PR v)"
proof -
  have "test_isPR s \<longleftrightarrow>
     (\<exists>u w v. s = u @ w @ v \<and> (u = [] \<or> (multiline flags_mi \<and> is_line_terminator (last u))) \<and>
        w \<in> lang flags_mi rx_PR_body)"
    unfolding test_isPR_def rx_PR_def by (rule rx_test_Bol[OF anchor_free_PR_body])
  also have "\<dots> \<longleftrightarrow>
     (\<exists>u v. s = u @ v \<and> (u = [] \<or> is_line_terminator (last u)) \<and> begins_with_PR v)"
    unfolding begins_with_PR_lang by (simp add: ic_mi) blast
  finally show ?thesis .
qed

lemma Merge_test: "rx_test flags_mi rx_Merge s \<longleftrightarrow> contains_ci (js ''Merge'') s"
  unfolding rx_Merge_def contains_ci_def
  by (simp add: rx_test_free anchor_free_Lits lang_Lits[OF ic_mi(1)])

lemma ci_eq_merge: "ci_eq x (js ''Merge'') \<longleftrightarrow> ci_eq x (js ''merge'')"
  by (simp add: ci_eq_def js_def canonicalize_def)

lemma contains_Merge: "contains_ci (js ''Merge'') s \<longleftrightarrow> contains_ci (js ''merge'') s"
  by (simp add: contains_ci_def ci_eq_merge)

lemma test_isMerge_iff:
  "test_isMerge s \<longleftrightarrow> (\<not> test_isPR s \<and> contains_ci (js ''merge'') s)"
  by (simp add: test_isMerge_def Merge_test contains_Merge)

lemma single_line_start:
  assumes "list_all (\<lambda>c. \<not> is_line_terminator c) s"
  shows "test_isPR s \<longleftrightarrow> begins_with_PR s"
proof -
  have "\<And>u v. s = u @ v \<Longrightarrow> u \<noteq> [] \<Longrightarrow> \<not> is_line_terminator (last u)"
  proof -
    fix u v assume "s = u @ v" "u \<noteq> []"
    then have "last u \<in> set s" by simp
    then show "\<not> is_line_terminator (last u)" using assms by (simp add: list_all_iff)
  qed
  then have "(\<exists>u v. s = u @ v \<and> (u = [] \<or> is_line_terminator (last u)) \<and> begins_with_PR v)
      \<longleftrightarrow> begins_with_PR s"
    by (metis append_Nil)
  then show ?thesis by (simp only: test_isPR_iff)
qed

lemma begins_with_PR_first:
  assumes "begins_with_PR t"
  shows "t \<noteq> [] \<and> (is_space (hd t) \<or> canonicalize (hd t) = 77 \<or> canonicalize (hd t) = 80)"
proof -
  from assms obtain sp mg pr sp2 num rest where
    t: "t = sp @ mg @ pr @ sp2 @ num @ COLON # rest" and
    c: "list_all is_space sp"
       "mg = [] \<or> (\<exists>m sp1. mg = m @ sp1 \<and> ci_eq m (js ''Merged'') \<and> sp1 \<noteq> [] \<and> list_all is_space sp1)"
       "ci_eq pr (js ''PR'')"
    unfolding begins_with_PR_def by blast
  have k: "canonicalize 80 = 80" "canonicalize 77 = 77"
    by (simp_all add: canonicalize_def)
  obtain p r where pr: "pr = [p, r]" "canonicalize p = 80"
    using c(3) by (auto simp: ci_eq_def js_def map_eq_Cons_conv k)
  show ?thesis
  proof (cases sp)
    case (Cons a as)
    then show ?thesis using t c(1) by simp
  next
    case Nil
    show ?thesis
    proof (cases "mg = []")
      case True
      then show ?thesis using t Nil pr by simp
    next
      case False
      then obtain m sp1 where m: "mg = m @ sp1" "ci_eq m (js ''Merged'')" using c(2) by blast
      then obtain a as where "m = a # as" "canonicalize a = 77"
        by (auto simp: ci_eq_def js_def map_eq_Cons_conv k)
      then show ?thesis using t Nil m by simp
    qed
  qed
qed

lemmas rx_eval =
  test_isPR_def test_isMerge_def rx_test_def flags_mi_def rx_PR_def rx_PR_body_def rx_Merge_def
  js_def Opt_def Plus_def COLON_def lit_matches_def canonicalize_def is_space_def is_digit_def
  is_white_space_def is_line_terminator_def rx_run.simps

lemma classify_PR_42: "test_isPR (js ''PR 42: fix bug'') \<and> \<not> test_isMerge (js ''PR 42: fix bug'')"
  by (simp add: rx_eval)

lemma classify_Merged_PR_7: "test_isPR (js ''Merged PR 7: cleanup'') \<and> \<not> test_isMerge (js ''Merged PR 7: cleanup'')"
  by (simp add: rx_eval)

lemma classify_Merge_branch: "\<not> test_isPR (js ''Merge branch '' @ [39] @ js ''dev'' @ [39]) \<and>
            test_isMerge (js ''Merge branch '' @ [39] @ js ''dev'' @ [39])"
  by (simp add: rx_eval)

lemma classify_Add_feature: "\<not> test_isPR (js ''Add feature X'') \<and> \<not> test_isMerge (js ''Add feature X'')"
  by (simp add: rx_eval)

lemma cr_subject_isPR: "test_isPR (js ''x'' @ [13] @ js ''PR 1:y'')"
  by (simp add: rx_eval)

lemma cr_subject_not_begin: "\<not> begins_with_PR (js ''x'' @ [13] @ js ''PR 1:y'')"
proof
  assume "begins_with_PR (js ''x'' @ [13] @ js ''PR 1:y'')"
  from begins_with_PR_first[OF this] show False
    by (simp add: js_def is_space_def is_white_space_def is_line_terminator_def canonicalize_def)
qed

subsection \<open>The classifier\<close>

text \<open>
  C3, counterexample. The pattern of \<open>isPR\<close> carries the flag \<open>m\<close>, so \<open>^\<close> also
  matches after a line terminator inside the subject. The subject \<open>x<CR>PR 1:y\<close> (a
  carriage return inside a subject line survives \<open>git show -s --format='%s'\<close>) is
  classified as a pull request although it does not begin with the \<open>PR\<close> token.
\<close>

theorem isPR_not_anchored_at_subject_start:
  "test_isPR (js ''x'' @ [13] @ js ''PR 1:y'') \<and>
   \<not> begins_with_PR (js ''x'' @ [13] @ js ''PR 1:y'')"
  using cr_subject_isPR cr_subject_not_begin by simp

text \<open>
  C3, as amended. For every subject: \<open>isPR\<close> is true exactly when some line of the
  subject (the subject's start, or the position right after a line terminator) begins,
  after optional white space, with an optional case-insensitive \<open>Merged\<close> token and
  white space followed by case-insensitive \<open>PR\<close>, white space, a number and a colon;
  on a subject without line terminators that is the subject's own beginning. \<open>isMerge\<close>
  is true exactly when \<open>isPR\<close> is false and the subject contains \<open>merge\<close> up to case
  anywhere. The two flags are never both true, and the four example subjects classify as
  the specification says.
\<close>

theorem classifier_by_line:
  "(test_isPR s \<longleftrightarrow>
      (\<exists>u v. s = u @ v \<and> (u = [] \<or> is_line_terminator (last u)) \<and> begins_with_PR v)) \<and>
   (list_all (\<lambda>c. \<not> is_line_terminator c) s \<longrightarrow> (test_isPR s \<longleftrightarrow> begins_with_PR s)) \<and>
   (test_isMerge s \<longleftrightarrow> (\<not> test_isPR s \<and> contains_ci (js ''merge'') s)) \<and>
   \<not> (test_isPR s \<and> test_isMerge s) \<and>
   test_isPR (js ''PR 42: fix bug'') \<and> \<not> test_isMerge (js ''PR 42: fix bug'') \<and>
   test_isPR (js ''Merged PR 7: cleanup'') \<and> \<not> test_isMerge (js ''Merged PR 7: cleanup'') \<and>
   \<not> test_isPR (js ''Merge branch '' @ [39] @ js ''dev'' @ [39]) \<and>
   test_isMerge (js ''Merge branch '' @ [39] @ js ''dev'' @ [39]) \<and>
   \<not> test_isPR (js ''Add feature X'') \<and> \<not> test_isMerge (js ''Add feature X'')"
proof -
  have a: "test_isPR s \<longleftrightarrow>
      (\<exists>u v. s = u @ v \<and> (u = [] \<or> is_line_terminator (last u)) \<and> begins_with_PR v)"
    by (rule test_isPR_iff)
  have b: "list_all (\<lambda>c. \<not> is_line_terminator c) s \<longrightarrow> (test_isPR s \<longleftrightarrow> begins_with_PR s)"
    using single_line_start by blast
  have c: "test_isMerge s \<longleftrightarrow> (\<not> test_isPR s \<and> contains_ci (js ''merge'') s)"
    by (rule test_isMerge_iff)
  have d: "\<not> (test_isPR s \<and> test_isMerge s)"
    by (simp add: test_isMerge_def)
  show ?thesis
    using a b c d classify_PR_42 classify_Merged_PR_7 classify_Merge_branch classify_Add_feature by blast
qed

theorem classifier_by_line_witness:
  "list_all (\<lambda>c. \<not> is_line_terminator c) (js ''Merged PR 7: cleanup'') \<and>
   begins_with_PR (js ''Merged PR 7: cleanup'') \<and>
   \<not> contains_ci (js ''merge'') (js ''Add feature X'')"
proof -
  have h: "list_all (\<lambda>c. \<not> is_line_terminator c) (js ''Merged PR 7: cleanup'')"
    by (simp add: js_def is_line_terminator_def)
  have "begins_with_PR (js ''Merged PR 7: cleanup'')"
    using h classifier_by_line [of "js ''Merged PR 7: cleanup''"] by blast
  moreover have "\<not> contains_ci (js ''merge'') (js ''Add feature X'')"
    using classifier_by_line [of "js ''Add feature X''"] by blast
  ultimately show ?thesis using h by blast
qed

subsection \<open>The history walk\<close>

lemma with_branches_Nil: "with_branches rn rm k [] ro = ro"
  by (simp add: with_branches_def split: option.splits)

lemma with_branches_twice: "with_branches rn rm k ys (with_branches rn rm k xs ro) = with_branches rn rm k (xs @ ys) ro"
  by (simp add: with_branches_def split: option.splits)

lemma visit_map_of:
  "map_of (visit rn rm b m h) k =
     (if k = h then with_branches rn rm k [b] (map_of m k) else map_of m k)"
  by (simp add: visit_def with_branches_def update_conv' split: option.splits)

lemma visit_keys: "distinct (map fst m) \<Longrightarrow> distinct (map fst (visit rn rm b m h))"
  by (simp add: visit_def distinct_update split: option.splits)

lemma fold_visit_keys:
  "distinct (map fst m) \<Longrightarrow> distinct (map fst (foldl (visit rn rm b) m hs))"
  by (induction hs arbitrary: m) (simp_all add: visit_keys)

lemma fold_visit_map_of:
  "map_of (foldl (visit rn rm b) m hs) k =
     with_branches rn rm k (replicate (count_list hs k) b) (map_of m k)"
proof (induction hs arbitrary: m)
  case Nil
  show ?case by (simp add: with_branches_Nil)
next
  case (Cons h hs)
  have step: "map_of (foldl (visit rn rm b) m (h # hs)) k =
        with_branches rn rm k (replicate (count_list hs k) b) (map_of (visit rn rm b m h) k)"
    by (simp add: Cons.IH)
  show ?case
  proof (cases "k = h")
    case True
    have "map_of (visit rn rm b m h) k = with_branches rn rm k [b] (map_of m k)"
      using True by (simp add: visit_map_of)
    then have "map_of (foldl (visit rn rm b) m (h # hs)) k =
        with_branches rn rm k ([b] @ replicate (count_list hs k) b) (map_of m k)"
      using step by (simp only: with_branches_twice)
    then show ?thesis using True by simp
  next
    case False
    then have "map_of (visit rn rm b m h) k = map_of m k"
      by (simp add: visit_map_of)
    then show ?thesis using step False by simp
  qed
qed

lemma walk_keys:
  "distinct (map fst m) \<Longrightarrow> walk e p rn rm m bs = Inr m' \<Longrightarrow> distinct (map fst m')"
proof (induction bs arbitrary: m)
  case Nil
  then show ?case by simp
next
  case (Cons b bs)
  then show ?case
    by (auto split: sum.splits intro: fold_visit_keys)
qed

lemma walk_calls:
  "walk e p rn rm m bs = Inr m' \<Longrightarrow> b \<in> set bs \<Longrightarrow> \<exists>hs. rev_list e p rm b = Inr hs"
proof (induction bs arbitrary: m)
  case Nil
  then show ?case by simp
next
  case (Cons a bs)
  then show ?case by (auto split: sum.splits)
qed

lemma walk_succeeds:
  "(\<And>b. b \<in> set bs \<Longrightarrow> \<exists>hs. rev_list e p rm b = Inr hs) \<Longrightarrow> \<exists>m'. walk e p rn rm m bs = Inr m'"
proof (induction bs arbitrary: m)
  case Nil
  show ?case by simp
next
  case (Cons a bs)
  obtain hs where hs: "rev_list e p rm a = Inr hs" using Cons.prems[of a] by auto
  have "\<exists>m'. walk e p rn rm (foldl (visit rn rm a) m hs) bs = Inr m'"
    by (rule Cons.IH) (simp add: Cons.prems)
  then show ?case using hs by simp
qed

lemma walk_map_of:
  "walk e p rn rm m bs = Inr m' \<Longrightarrow>
   map_of m' k = with_branches rn rm k (added e p rm bs k) (map_of m k)"
proof (induction bs arbitrary: m)
  case Nil
  then show ?case by (simp add: added_def with_branches_Nil)
next
  case (Cons b bs)
  from Cons.prems obtain hs where hs: "rev_list e p rm b = Inr hs"
    and w: "walk e p rn rm (foldl (visit rn rm b) m hs) bs = Inr m'"
    by (auto split: sum.splits)
  have "map_of m' k =
        with_branches rn rm k (added e p rm bs k) (map_of (foldl (visit rn rm b) m hs) k)"
    by (rule Cons.IH[OF w])
  also have "\<dots> = with_branches rn rm k (replicate (count_list hs k) b @ added e p rm bs k) (map_of m k)"
    by (simp add: fold_visit_map_of with_branches_twice)
  also have "replicate (count_list hs k) b @ added e p rm bs k = added e p rm (b # bs) k"
    using hs by (simp add: added_def hashes_of_def)
  finally show ?case .
qed

lemma set_added:
  "set (added e p rm bs k) = {b \<in> set bs. k \<in> set (hashes_of e p rm b)}"
  by (auto simp: added_def count_list_0_iff)

lemma count_list_distinct:
  "distinct xs \<Longrightarrow> count_list xs k = (if k \<in> set xs then 1 else 0)"
  by (induction xs) auto

lemma added_filter:
  assumes "\<And>b. b \<in> set bs \<Longrightarrow> distinct (hashes_of e p rm b)"
  shows "added e p rm bs k = filter (\<lambda>b. k \<in> set (hashes_of e p rm b)) bs"
  using assms
proof (induction bs)
  case Nil
  show ?case by (simp add: added_def)
next
  case (Cons b bs)
  have d: "distinct (hashes_of e p rm b)" using Cons.prems by simp
  have "count_list (hashes_of e p rm b) k = (if k \<in> set (hashes_of e p rm b) then 1 else 0)"
    using d by (rule count_list_distinct)
  moreover have "added e p rm bs k = filter (\<lambda>b. k \<in> set (hashes_of e p rm b)) bs"
    using Cons by simp
  ultimately show ?case by (simp add: added_def)
qed

lemma one_record:
  assumes "distinct (map fst m)" "map_of m k = Some r"
  shows "filter (\<lambda>(k', x). k' = k) m = [(k, r)]"
  using assms
proof (induction m)
  case Nil
  then show ?case by simp
next
  case (Cons a m)
  obtain k' x where a: "a = (k', x)" by (cases a)
  show ?case
  proof (cases "k' = k")
    case True
    then have "x = r" using Cons.prems a by simp
    moreover have "k \<notin> fst ` set m" using Cons.prems a True by simp
    then have "filter (\<lambda>(k', x). k' = k) m = []"
      by (force simp: filter_empty_conv)
    ultimately show ?thesis using a True by simp
  next
    case False
    then show ?thesis using Cons a by simp
  qed
qed

lemma sorted_listBranches: "sorted (listBranches rm out)"
  by (simp add: listBranches_def)

lemma record_of_walk:
  assumes w: "walk e p rn rm [] bs = Inr m" and kr: "(k, r) \<in> set m"
  shows "r = \<lparr>repo = rn, remote = rm, hash = k, branches = added e p rm bs k\<rparr> \<and>
         added e p rm bs k \<noteq> []"
proof -
  have "distinct (map fst m)" using walk_keys[OF _ w] by simp
  then have "map_of m k = Some r" using kr by simp
  moreover have "map_of m k = with_branches rn rm k (added e p rm bs k) (map_of [] k)"
    by (rule walk_map_of[OF w])
  ultimately have "with_branches rn rm k (added e p rm bs k) None = Some r" by simp
  then show ?thesis by (auto simp: with_branches_def split: if_splits)
qed

lemma walk_record_exists:
  assumes w: "walk e p rn rm [] bs = Inr m" and b: "b \<in> set bs"
    and h: "rev_list e p rm b = Inr hs" "c \<in> set hs"
  shows "map_of m c = Some \<lparr>repo = rn, remote = rm, hash = c, branches = added e p rm bs c\<rparr>"
proof -
  have "b \<in> set (added e p rm bs c)" using b h by (simp add: set_added hashes_of_def)
  then have "added e p rm bs c \<noteq> []" by auto
  moreover have "map_of m c = with_branches rn rm c (added e p rm bs c) (map_of [] c)"
    by (rule walk_map_of[OF w])
  ultimately show ?thesis by (simp add: with_branches_def)
qed

lemma set_added_perm: "set bs' = set bs \<Longrightarrow> set (added e p rm bs' k) = set (added e p rm bs k)"
  by (simp add: set_added)

text \<open>
  C1. For branches \<open>b1\<close> and \<open>b2\<close> of the walk whose \<open>rev-list\<close> outputs both contain the
  commit \<open>c\<close>: after the walk the commit map holds exactly one record for \<open>c\<close>, its
  branch list contains \<open>b1\<close> and \<open>b2\<close>, and a walk over the same branches in any other
  order succeeds too and gives \<open>c\<close> one record with the same set of branches.
\<close>

theorem shared_commit_one_record:
  assumes "walk e p rn rm [] bs = Inr m"
    and "b1 \<in> set bs" and "b2 \<in> set bs"
    and "rev_list e p rm b1 = Inr h1" and "c \<in> set h1"
    and "rev_list e p rm b2 = Inr h2" and "c \<in> set h2"
  shows "\<exists>r. filter (\<lambda>(k, x). k = c) m = [(c, r)] \<and> hash r = c \<and>
             b1 \<in> set (branches r) \<and> b2 \<in> set (branches r) \<and>
             (\<forall>bs'. mset bs' = mset bs \<longrightarrow>
                (\<exists>m' r'. walk e p rn rm [] bs' = Inr m' \<and>
                         filter (\<lambda>(k, x). k = c) m' = [(c, r')] \<and>
                         set (branches r') = set (branches r)))"
proof -
  let ?r = "\<lparr>repo = rn, remote = rm, hash = c, branches = added e p rm bs c\<rparr>"
  have d: "distinct (map fst m)" using walk_keys[OF _ assms(1)] by simp
  have m: "map_of m c = Some ?r"
    by (rule walk_record_exists[OF assms(1) assms(2) assms(4) assms(5)])
  have one: "filter (\<lambda>(k, x). k = c) m = [(c, ?r)]"
    by (rule one_record[OF d m])
  have b1: "b1 \<in> set (branches ?r)"
    using assms(2,4,5) by (simp add: set_added hashes_of_def)
  have b2: "b2 \<in> set (branches ?r)"
    using assms(3,6,7) by (simp add: set_added hashes_of_def)
  have perm: "\<exists>m' r'. walk e p rn rm [] bs' = Inr m' \<and>
                  filter (\<lambda>(k, x). k = c) m' = [(c, r')] \<and>
                  set (branches r') = set (branches ?r)"
    if p: "mset bs' = mset bs" for bs'
  proof -
    have s: "set bs' = set bs" using p by (rule mset_eq_setD)
    have "\<And>b. b \<in> set bs' \<Longrightarrow> \<exists>hs. rev_list e p rm b = Inr hs"
      using walk_calls[OF assms(1)] s by simp
    then obtain m' where w': "walk e p rn rm [] bs' = Inr m'"
      using walk_succeeds[of bs' e p rm rn "[]"] by blast
    let ?r' = "\<lparr>repo = rn, remote = rm, hash = c, branches = added e p rm bs' c\<rparr>"
    have d': "distinct (map fst m')" using walk_keys[OF _ w'] by simp
    have "b1 \<in> set bs'" using assms(2) s by simp
    then have m': "map_of m' c = Some ?r'"
      by (rule walk_record_exists[OF w' _ assms(4) assms(5)])
    have "filter (\<lambda>(k, x). k = c) m' = [(c, ?r')]"
      by (rule one_record[OF d' m'])
    moreover have "set (branches ?r') = set (branches ?r)"
      using s by (simp add: set_added)
    ultimately show ?thesis using w' by blast
  qed
  show ?thesis
    using one b1 b2 perm by (intro exI[of _ ?r]) simp
qed

lemmas walk_eval =
  walk.simps rev_list_def git_def demo_env_def trim_def js_def LF_def SLASH_def visit_def
  is_space_def is_white_space_def is_line_terminator_def

lemma demo_rev_list:
  "rev_list demo_env (js ''.'') (js ''origin'') b = Inr [js ''c1'', js ''c0'']"
  by (simp add: walk_eval)

lemma demo_walk:
  "walk demo_env (js ''.'') (js ''repo.git'') (js ''origin'') [] [js ''dev'', js ''main''] =
     Inr [(js ''c1'', \<lparr>repo = js ''repo.git'', remote = js ''origin'', hash = js ''c1'',
                       branches = [js ''dev'', js ''main'']\<rparr>),
          (js ''c0'', \<lparr>repo = js ''repo.git'', remote = js ''origin'', hash = js ''c0'',
                       branches = [js ''dev'', js ''main'']\<rparr>)]"
  by (simp add: walk_eval)

theorem shared_commit_one_record_witness:
  "\<exists>m r. walk demo_env (js ''.'') (js ''repo.git'') (js ''origin'') [] [js ''dev'', js ''main''] = Inr m \<and>
         filter (\<lambda>(k, x). k = js ''c1'') m = [(js ''c1'', r)] \<and>
         js ''dev'' \<in> set (branches r) \<and> js ''main'' \<in> set (branches r)"
proof -
  have c: "js ''c1'' \<in> set [js ''c1'', js ''c0'']" by simp
  have "\<exists>r. filter (\<lambda>(k, x). k = js ''c1'')
               [(js ''c1'', \<lparr>repo = js ''repo.git'', remote = js ''origin'', hash = js ''c1'',
                              branches = [js ''dev'', js ''main'']\<rparr>),
                (js ''c0'', \<lparr>repo = js ''repo.git'', remote = js ''origin'', hash = js ''c0'',
                              branches = [js ''dev'', js ''main'']\<rparr>)] = [(js ''c1'', r)] \<and>
            js ''dev'' \<in> set (branches r) \<and> js ''main'' \<in> set (branches r)"
    using shared_commit_one_record [OF demo_walk _ _ demo_rev_list c demo_rev_list c,
        of "js ''dev''" "js ''main''"]
    by auto
  then show ?thesis using demo_walk by blast
qed

lemma fetch_details_commit:
  assumes "fetch_details e p k r = Inr d"
  shows "repo d = repo r \<and> remote d = remote r \<and> hash d = hash r \<and> branches d = branches r \<and>
         doc_id d = repo r @ [HYPHEN] @ remote r @ [HYPHEN] @ hash r"
  using assms unfolding fetch_details_def bindE_def
  by (auto split: sum.splits)

lemma store_commits_new:
  "store_commits e p m st = (res, st') \<Longrightarrow> stored st' i = Some d \<Longrightarrow>
   stored st i = Some d \<or> (\<exists>(k, r) \<in> set m. fetch_details e p k r = Inr d)"
proof (induction m arbitrary: st)
  case Nil
  then show ?case by simp
next
  case (Cons a m)
  obtain k r where a: "a = (k, r)" by (cases a)
  show ?case
  proof (cases "fetch_details e p k r")
    case (Inl err)
    then show ?thesis using Cons.prems a by simp
  next
    case (Inr d0)
    show ?thesis
    proof (cases "updateOne_error e d0")
      case (Some err)
      then show ?thesis using Cons.prems a Inr by (simp add: updateOne_def)
    next
      case None
      let ?st1 = "bar_tick (st\<lparr>stored := (stored st)(doc_id d0 \<mapsto> d0)\<rparr>)"
      have run: "store_commits e p m ?st1 = (res, st')"
        using Cons.prems(1) a Inr None by (simp add: updateOne_def)
      have "stored ?st1 i = Some d \<or> (\<exists>(k, r) \<in> set m. fetch_details e p k r = Inr d)"
        by (rule Cons.IH[OF run Cons.prems(2)])
      moreover have "stored ?st1 i = Some d \<Longrightarrow> stored st i = Some d \<or> d = d0"
        by (auto simp: bar_tick_def split: if_splits)
      ultimately show ?thesis using a Inr by auto
    qed
  qed
qed

lemma walk_record_confirmed:
  assumes w: "walk e p rn rm [] bs = Inr m" and kr: "(k, r) \<in> set m"
  shows "branches r \<noteq> [] \<and> hash r = k \<and>
         (\<forall>b \<in> set (branches r). b \<in> set bs \<and> (\<exists>hs. rev_list e p rm b = Inr hs \<and> k \<in> set hs))"
proof -
  have r: "r = \<lparr>repo = rn, remote = rm, hash = k, branches = added e p rm bs k\<rparr>"
    and ne: "added e p rm bs k \<noteq> []"
    using record_of_walk[OF w kr] by simp_all
  have "\<exists>hs. rev_list e p rm b = Inr hs \<and> k \<in> set hs" if b: "b \<in> set (added e p rm bs k)" for b
  proof -
    have "b \<in> set bs" "k \<in> set (hashes_of e p rm b)" using b by (simp_all add: set_added)
    moreover obtain hs where "rev_list e p rm b = Inr hs" using walk_calls[OF w \<open>b \<in> set bs\<close>] by blast
    ultimately show ?thesis by (simp add: hashes_of_def)
  qed
  moreover have "\<And>b. b \<in> set (added e p rm bs k) \<Longrightarrow> b \<in> set bs" by (simp add: set_added)
  ultimately show ?thesis using r ne by simp
qed

text \<open>
  C6. Every record the walk produces has a non-empty branch list, and every branch in
  it is a branch of the walk whose \<open>rev-list\<close> output contains the record's hash. The same
  holds of every document the store loop writes for the walk's map, since a document
  takes its hash and branches from the walk's record.
\<close>

theorem branches_nonempty_and_confirmed:
  assumes "walk e p rn rm [] bs = Inr m"
  shows "(\<forall>(k, r) \<in> set m.
            branches r \<noteq> [] \<and> hash r = k \<and>
            (\<forall>b \<in> set (branches r).
               b \<in> set bs \<and> (\<exists>hs. rev_list e p rm b = Inr hs \<and> hash r \<in> set hs))) \<and>
         (\<forall>st res st' i d.
            store_commits e p m st = (res, st') \<and> stored st' i = Some d \<and> stored st i \<noteq> Some d \<longrightarrow>
            branches d \<noteq> [] \<and>
            (\<forall>b \<in> set (branches d).
               b \<in> set bs \<and> (\<exists>hs. rev_list e p rm b = Inr hs \<and> hash d \<in> set hs)))"
proof -
  have walked: "\<forall>(k, r) \<in> set m.
            branches r \<noteq> [] \<and> hash r = k \<and>
            (\<forall>b \<in> set (branches r).
               b \<in> set bs \<and> (\<exists>hs. rev_list e p rm b = Inr hs \<and> hash r \<in> set hs))"
    using walk_record_confirmed[OF assms] by fastforce
  have persisted: "branches d \<noteq> [] \<and>
            (\<forall>b \<in> set (branches d).
               b \<in> set bs \<and> (\<exists>hs. rev_list e p rm b = Inr hs \<and> hash d \<in> set hs))"
    if a: "store_commits e p m st = (res, st') \<and> stored st' i = Some d \<and> stored st i \<noteq> Some d"
    for st res st' i d
  proof -
    obtain k r where kr: "(k, r) \<in> set m" and f: "fetch_details e p k r = Inr d"
      using a store_commits_new[of e p m st res st' i d] by auto
    have c: "branches r \<noteq> [] \<and> hash r = k \<and>
         (\<forall>b \<in> set (branches r). b \<in> set bs \<and> (\<exists>hs. rev_list e p rm b = Inr hs \<and> k \<in> set hs))"
      by (rule walk_record_confirmed[OF assms kr])
    have "branches d = branches r" "hash d = k" using fetch_details_commit[OF f] c by simp_all
    then show ?thesis using c by simp
  qed
  show ?thesis
    using walked persisted by blast
qed

theorem branches_nonempty_and_confirmed_witness:
  "branches \<lparr>repo = js ''repo.git'', remote = js ''origin'', hash = js ''c1'',
             branches = [js ''dev'', js ''main'']\<rparr> \<noteq> [] \<and>
   (\<exists>hs. rev_list demo_env (js ''.'') (js ''origin'') (js ''main'') = Inr hs \<and> js ''c1'' \<in> set hs)"
  using branches_nonempty_and_confirmed [OF demo_walk]
  by simp

lemma sorted_added: "sorted bs \<Longrightarrow> sorted (added e p rm bs k)"
proof (induction bs)
  case Nil
  show ?case by (simp add: added_def)
next
  case (Cons b bs)
  have "set (added e p rm bs k) \<subseteq> set bs" by (auto simp: set_added)
  then have "\<forall>y \<in> set (added e p rm bs k). b \<le> y" using Cons.prems by auto
  moreover have "sorted (added e p rm bs k)" using Cons by simp
  moreover have "added e p rm (b # bs) k =
      replicate (count_list (hashes_of e p rm b) k) b @ added e p rm bs k"
    by (simp add: added_def)
  ultimately show ?case by (simp add: sorted_append)
qed

text \<open>
  C10, as amended. After a walk over the branches the lister returned, every record's
  branch list is sorted; it has no duplicates provided the lister's names are pairwise
  distinct and no \<open>rev-list\<close> output of those branches repeats a hash.
\<close>

theorem branches_sorted_without_duplicates:
  assumes "walk e p rn rm [] (listBranches rm out) = Inr m"
  shows "\<forall>(k, r) \<in> set m.
           sorted (branches r) \<and>
           (distinct (listBranches rm out) \<and>
            (\<forall>b \<in> set (listBranches rm out). \<forall>hs. rev_list e p rm b = Inr hs \<longrightarrow> distinct hs)
            \<longrightarrow> distinct (branches r))"
proof -
  let ?bs = "listBranches rm out"
  have "sorted (branches r) \<and>
        (distinct ?bs \<and> (\<forall>b \<in> set ?bs. \<forall>hs. rev_list e p rm b = Inr hs \<longrightarrow> distinct hs)
         \<longrightarrow> distinct (branches r))"
    if kr: "(k, r) \<in> set m" for k r
  proof -
    have br: "branches r = added e p rm ?bs k"
      using record_of_walk[OF assms(1) kr] by simp
    have "sorted (branches r)"
      unfolding br by (rule sorted_added) (rule sorted_listBranches)
    moreover have "distinct (branches r)"
      if d: "distinct ?bs"
        and h: "\<forall>b \<in> set ?bs. \<forall>hs. rev_list e p rm b = Inr hs \<longrightarrow> distinct hs"
    proof -
      have dh: "\<And>b. b \<in> set ?bs \<Longrightarrow> distinct (hashes_of e p rm b)"
        using h by (auto simp: hashes_of_def split: sum.splits)
      have "branches r = filter (\<lambda>b. k \<in> set (hashes_of e p rm b)) ?bs"
        unfolding br by (rule added_filter[OF dh])
      then show ?thesis using d by simp
    qed
    ultimately show ?thesis by blast
  qed
  then show ?thesis by auto
qed

lemmas lister_eval =
  at_index_Cons_numeral listBranches_def js_def LF_def SLASH_def trim_def is_space_def is_white_space_def
  is_line_terminator_def

lemma demo_listBranches: "listBranches (js ''origin'') demo_refs = [js ''dev'', js ''main'']"
  by (simp add: demo_refs_def lister_eval)

lemma nbsp_listBranches: "listBranches (js ''origin'') nbsp_refs = [js ''x'', js ''x'']"
  by (simp add: nbsp_refs_def lister_eval)


lemma demo_walk_refs:
  "walk demo_env (js ''.'') (js ''repo.git'') (js ''origin'') [] (listBranches (js ''origin'') demo_refs) =
     Inr [(js ''c1'', \<lparr>repo = js ''repo.git'', remote = js ''origin'', hash = js ''c1'',
                       branches = [js ''dev'', js ''main'']\<rparr>),
          (js ''c0'', \<lparr>repo = js ''repo.git'', remote = js ''origin'', hash = js ''c0'',
                       branches = [js ''dev'', js ''main'']\<rparr>)]"
  unfolding demo_listBranches by (rule demo_walk)

lemma nbsp_walk:
  "walk demo_env (js ''.'') (js ''repo.git'') (js ''origin'') [] (listBranches (js ''origin'') nbsp_refs) =
     Inr [(js ''c1'', \<lparr>repo = js ''repo.git'', remote = js ''origin'', hash = js ''c1'',
                       branches = [js ''x'', js ''x'']\<rparr>),
          (js ''c0'', \<lparr>repo = js ''repo.git'', remote = js ''origin'', hash = js ''c0'',
                       branches = [js ''x'', js ''x'']\<rparr>)]"
  unfolding nbsp_listBranches by (simp add: walk_eval)

text \<open>
  C10, counterexample. The remote has the two branches \<open>x<NBSP>\<close> and \<open>x\<close>. The lister
  trims both lines to the name \<open>x\<close>, the walk visits \<open>origin/x\<close> twice, and the record
  of each commit lists \<open>x\<close> twice.
\<close>

theorem duplicate_branch_in_record:
  "walk demo_env (js ''.'') (js ''repo.git'') (js ''origin'') [] (listBranches (js ''origin'') nbsp_refs) =
     Inr [(js ''c1'', \<lparr>repo = js ''repo.git'', remote = js ''origin'', hash = js ''c1'',
                       branches = [js ''x'', js ''x'']\<rparr>),
          (js ''c0'', \<lparr>repo = js ''repo.git'', remote = js ''origin'', hash = js ''c0'',
                       branches = [js ''x'', js ''x'']\<rparr>)] \<and>
   \<not> distinct (branches \<lparr>repo = js ''repo.git'', remote = js ''origin'', hash = js ''c1'',
                          branches = [js ''x'', js ''x'']\<rparr>)"
  using nbsp_walk by simp

theorem branches_sorted_without_duplicates_witness:
  "distinct (listBranches (js ''origin'') demo_refs) \<and>
   sorted (branches \<lparr>repo = js ''repo.git'', remote = js ''origin'', hash = js ''c1'',
                      branches = [js ''dev'', js ''main'']\<rparr>) \<and>
   distinct (branches \<lparr>repo = js ''repo.git'', remote = js ''origin'', hash = js ''c1'',
                        branches = [js ''dev'', js ''main'']\<rparr>)"
proof -
  have d: "distinct (listBranches (js ''origin'') demo_refs)"
    unfolding demo_listBranches by (simp add: js_def)
  have h: "\<forall>b \<in> set (listBranches (js ''origin'') demo_refs).
             \<forall>hs. rev_list demo_env (js ''.'') (js ''origin'') b = Inr hs \<longrightarrow> distinct hs"
    by (simp add: demo_rev_list) (simp add: js_def)
  show ?thesis
    using branches_sorted_without_duplicates [OF demo_walk_refs] d h by simp
qed

subsection \<open>The diff-stat parser and the Branch Lister\<close>




























subsection \<open>Identifiers, defaults and exit codes\<close>

lemma fetch_details_demo:
  "\<exists>d. fetch_details demo_env p k c = Inr d"
  by (simp add: fetch_details_def bindE_def show_field_def git_def demo_env_def)

text \<open>
  C5. The \<open>_id\<close> of a commit document is the repo name, the remote name and the hash of
  its record joined by hyphens, whatever the environment, the repository path and
  the rest of the record are; for a record of the walk these are the run's repo name,
  its remote name and the commit hash. Two runs that agree on the three values assign
  the same \<open>_id\<close>.
\<close>

theorem id_is_repo_remote_hash:
  "(fetch_details e p k c = Inr d \<longrightarrow>
      doc_id d = repo c @ [HYPHEN] @ remote c @ [HYPHEN] @ hash c) \<and>
   (walk e p rn rm [] bs = Inr m \<and> (k, c) \<in> set m \<and> fetch_details e p k c = Inr d \<longrightarrow>
      doc_id d = rn @ [HYPHEN] @ rm @ [HYPHEN] @ k) \<and>
   (fetch_details e p k c = Inr d \<and> fetch_details e' p' k' c' = Inr d' \<and>
    repo c' = repo c \<and> remote c' = remote c \<and> hash c' = hash c \<longrightarrow>
      doc_id d' = doc_id d)"
proof -
  have a: "doc_id d = repo c @ [HYPHEN] @ remote c @ [HYPHEN] @ hash c"
    if "fetch_details e p k c = Inr d" for e p k c d
    using fetch_details_commit[OF that] by simp
  have b: "doc_id d = rn @ [HYPHEN] @ rm @ [HYPHEN] @ k"
    if w: "walk e p rn rm [] bs = Inr m" and kc: "(k, c) \<in> set m"
      and f: "fetch_details e p k c = Inr d"
  proof -
    have "c = \<lparr>repo = rn, remote = rm, hash = k, branches = added e p rm bs k\<rparr>"
      using record_of_walk[OF w kc] by simp
    then show ?thesis using a[OF f] by simp
  qed
  show ?thesis using a b by metis
qed

theorem id_is_repo_remote_hash_witness:
  "\<exists>d. fetch_details demo_env (js ''.'') (js ''c1'') commit_A = Inr d \<and>
        doc_id d = js ''a-b-c-c1''"
proof -
  obtain d where d: "fetch_details demo_env (js ''.'') (js ''c1'') commit_A = Inr d"
    using fetch_details_demo by blast
  have "doc_id d = repo commit_A @ [HYPHEN] @ remote commit_A @ [HYPHEN] @ hash commit_A"
    using d id_is_repo_remote_hash [of demo_env "js ''.''" "js ''c1''" commit_A d] by blast
  then have "doc_id d = js ''a-b-c-c1''"
    by (simp add: commit_A_def js_def HYPHEN_def)
  then show ?thesis using d by blast
qed

lemma store_one_demo:
  assumes "fetch_details demo_env p k c = Inr d"
  shows "store_commits demo_env p [(k, c)] st =
           (Inr (), bar_tick (st\<lparr>stored := (stored st)(doc_id d \<mapsto> d)\<rparr>))"
  using assms by (simp add: updateOne_def demo_env_def)

text \<open>
  C9. The \<open>_id\<close> joins repo, remote and hash with single hyphens and is not injective:
  repo \<open>a-b\<close> with remote \<open>c\<close> and repo \<open>a\<close> with remote \<open>b-c\<close> get the same \<open>_id\<close> for
  the same hash, and storing the second document replaces the first.
\<close>

theorem id_not_injective:
  "\<exists>da db. fetch_details demo_env (js ''.'') (js ''c1'') commit_A = Inr da \<and>
           fetch_details demo_env (js ''.'') (js ''c1'') commit_B = Inr db \<and>
           hash commit_A = hash commit_B \<and>
           repo da = js ''a-b'' \<and> remote da = js ''c'' \<and>
           repo db = js ''a'' \<and> remote db = js ''b-c'' \<and>
           repo da \<noteq> repo db \<and> remote da \<noteq> remote db \<and>
           doc_id da = js ''a-b-c-c1'' \<and> doc_id db = js ''a-b-c-c1'' \<and>
           (\<exists>st1 st2.
              store_commits demo_env (js ''.'') [(js ''c1'', commit_A)] init_state = (Inr (), st1) \<and>
              store_commits demo_env (js ''.'') [(js ''c1'', commit_B)] st1 = (Inr (), st2) \<and>
              stored st1 = [js ''a-b-c-c1'' \<mapsto> da] \<and>
              stored st2 = [js ''a-b-c-c1'' \<mapsto> db])"
proof -
  obtain da where da: "fetch_details demo_env (js ''.'') (js ''c1'') commit_A = Inr da"
    using fetch_details_demo by blast
  obtain db where db: "fetch_details demo_env (js ''.'') (js ''c1'') commit_B = Inr db"
    using fetch_details_demo by blast
  have a: "repo da = js ''a-b''" "remote da = js ''c''" "doc_id da = js ''a-b-c-c1''"
    using fetch_details_commit[OF da] by (simp_all add: commit_A_def js_def HYPHEN_def)
  have b: "repo db = js ''a''" "remote db = js ''b-c''" "doc_id db = js ''a-b-c-c1''"
    using fetch_details_commit[OF db] by (simp_all add: commit_B_def js_def HYPHEN_def)
  have ne: "repo da \<noteq> repo db" "remote da \<noteq> remote db"
    by (simp_all add: a b js_def)
  have h: "hash commit_A = hash commit_B" by (simp add: commit_A_def commit_B_def)
  let ?st1 = "bar_tick (init_state\<lparr>stored := (stored init_state)(doc_id da \<mapsto> da)\<rparr>)"
  let ?st2 = "bar_tick (?st1\<lparr>stored := (stored ?st1)(doc_id db \<mapsto> db)\<rparr>)"
  have s1: "store_commits demo_env (js ''.'') [(js ''c1'', commit_A)] init_state = (Inr (), ?st1)"
    by (rule store_one_demo[OF da])
  have s2: "store_commits demo_env (js ''.'') [(js ''c1'', commit_B)] ?st1 = (Inr (), ?st2)"
    by (rule store_one_demo[OF db])
  have m1: "stored ?st1 = [js ''a-b-c-c1'' \<mapsto> da]"
    by (simp add: bar_tick_def init_state_def a)
  have m2: "stored ?st2 = [js ''a-b-c-c1'' \<mapsto> db]"
    by (simp add: bar_tick_def init_state_def a b)
  show ?thesis
    using da db h a b ne s1 s2 m1 m2 by blast
qed
















end
